theory Spec2Isabelle
  imports Main "HOL-Library.AList" "HOL-Library.Monad_Syntax" "HOL-Library.Word"
begin

section \<open>DeviceRecord: rotating the active session of a peer device\<close>

text \<open>
  A \<open>Session\<close> is a JavaScript object: \<open>===\<close> on two sessions compares object
  identity.  The model gives every session object an address (\<open>ref\<close>) next to the
  one field \<open>rotateSession\<close> reads, its \<open>name\<close>.
\<close>

record Session =
  ref :: nat
  name :: string

definition same_object :: "Session \<Rightarrow> Session \<Rightarrow> bool" where
  "same_object a b = (ref a = ref b)"

record DeviceRecord =
  dr_deviceId :: string
  activeSession :: "Session option"
  inactiveSessions :: "Session list"
  dr_createdAt :: int
  staleAt :: "int option"

text \<open>\<open>createDeviceRecord\<close>; the clock reading \<open>Date.now()\<close> is an argument.\<close>

definition createDeviceRecord :: "int \<Rightarrow> string \<Rightarrow> DeviceRecord" where
  "createDeviceRecord now deviceId =
     \<lparr>dr_deviceId = deviceId, activeSession = None, inactiveSessions = [],
      dr_createdAt = now, staleAt = None\<rparr>"

text \<open>\<open>Array.prototype.slice(-1)\<close>: the last element alone, or the empty array.\<close>

definition slice_last :: "'a list \<Rightarrow> 'a list" where
  "slice_last xs = drop (length xs - 1) xs"

text \<open>
  \<open>rotateSession\<close> mutates the record in place and returns nothing; the model returns
  the updated record.  The three returns of the source are the three branches.
\<close>

definition rotateSession :: "DeviceRecord \<Rightarrow> Session \<Rightarrow> DeviceRecord" where
  "rotateSession record nextSession =
     (case activeSession record of
        None \<Rightarrow> record\<lparr>activeSession := Some nextSession\<rparr>
      | Some current \<Rightarrow>
          if same_object current nextSession \<or> name current = name nextSession
          then record\<lparr>activeSession := Some nextSession\<rparr>
          else
            let filtered = filter (\<lambda>session. \<not> same_object session current
                                        \<and> name session \<noteq> name current)
                                  (inactiveSessions record);
                pushed = filtered @ [current]
            in record\<lparr>inactiveSessions := slice_last pushed,
                      activeSession := Some nextSession\<rparr>)"

section \<open>Signed events\<close>

text \<open>
  The event shape of the substrate, \<open>{id, pubkey, created_at, kind, tags, content, sig}\<close>.
  An \<open>UnsignedEvent\<close> has no \<open>id\<close> and no \<open>sig\<close>; both are optional fields here.
  A JavaScript string is truthy when it is not empty.
\<close>

type_synonym bytes = "8 word list"

record Event =
  kind :: int
  pubkey :: string
  created_at :: int
  tags :: "string list list"
  content :: string
  ev_id :: "string option"
  ev_sig :: "string option"

definition truthy :: "string \<Rightarrow> bool" where
  "truthy s = (s \<noteq> [])"

definition truthy_opt :: "string option \<Rightarrow> bool" where
  "truthy_opt v = (case v of None \<Rightarrow> False | Some s \<Rightarrow> truthy s)"

text \<open>\<open>tag[i]\<close>: \<open>undefined\<close> past the end of the array.\<close>

definition tag_at :: "string list \<Rightarrow> nat \<Rightarrow> string option" where
  "tag_at tag i = (if i < length tag then Some (tag ! i) else None)"

section \<open>InviteList: the owner's device registry\<close>

record DeviceEntry =
  ephemeralPublicKey :: string
  sharedSecret :: string
  deviceId :: string
  label :: string
  ephemeralPrivateKey :: "bytes option"

record RemovedEntry =
  rm_deviceId :: string
  timestamp :: int

text \<open>
  \<open>devices\<close> is a JavaScript \<open>Map\<close>: an association list in insertion order, where
  \<open>set\<close> on a present key replaces the value in place (\<open>AList.update\<close>), \<open>delete\<close>
  is \<open>AList.delete\<close> and \<open>get\<close> is \<open>map_of\<close>.
\<close>

record InviteList =
  owner :: string
  devices :: "(string \<times> DeviceEntry) list"
  removed :: "RemovedEntry list"
  mainDeviceId :: "string option"
  version :: int
  createdAt :: int

text \<open>
  The private constructor: \<open>createdAt ?? Math.floor(Date.now() / 1000)\<close>; \<open>now\<close> is
  the clock reading in milliseconds.
\<close>

definition new_InviteList :: "int \<Rightarrow> string \<Rightarrow> int option \<Rightarrow> InviteList" where
  "new_InviteList now own created =
     \<lparr>owner = own, devices = [], removed = [], mainDeviceId = None, version = 1,
      createdAt = (case created of None \<Rightarrow> now div 1000 | Some c \<Rightarrow> c)\<rparr>"

definition create :: "int \<Rightarrow> string \<Rightarrow> InviteList" where
  "create now own = new_InviteList now own None"

text \<open>
  One iteration of the tag loop of \<open>fromEvent\<close>.  \<open>Number\<close> is the string-to-number
  conversion of JavaScript, taken as an argument.
\<close>

definition fromEvent_tag :: "(string \<Rightarrow> int) \<Rightarrow> string list \<Rightarrow> InviteList \<Rightarrow> InviteList" where
  "fromEvent_tag Number tag list =
     (if tag_at tag 0 = Some ''device'' \<and> length tag \<ge> 5 then
        (let e = tag ! 1; s = tag ! 2; d = tag ! 3; l = tag ! 4 in
         if truthy e \<and> truthy s \<and> truthy d \<and> truthy l
         then list\<lparr>devices := AList.update d
                 \<lparr>ephemeralPublicKey = e, sharedSecret = s, deviceId = d, label = l,
                  ephemeralPrivateKey = None\<rparr> (devices list)\<rparr>
         else list)
      else if tag_at tag 0 = Some ''removed'' \<and> length tag \<ge> 3 then
        (let d = tag ! 1; t = tag ! 2 in
         if truthy d \<and> truthy t
         then list\<lparr>removed := removed list @ [\<lparr>rm_deviceId = d, timestamp = Number t\<rparr>]\<rparr>
         else list)
      else if tag_at tag 0 = Some ''main-device'' \<and> truthy_opt (tag_at tag 1) then
        list\<lparr>mainDeviceId := tag_at tag 1\<rparr>
      else if tag_at tag 0 = Some ''version'' \<and> truthy_opt (tag_at tag 1) then
        list\<lparr>version := Number (tag ! 1)\<rparr>
      else list)"

text \<open>
  \<open>fromEvent\<close>; \<open>verifyEvent\<close> is the signature check of the crypto collaborator.
  The two \<open>throw\<close>s are the \<open>Inl\<close> results.
\<close>

definition fromEvent ::
  "(Event \<Rightarrow> bool) \<Rightarrow> (string \<Rightarrow> int) \<Rightarrow> Event \<Rightarrow> string + InviteList" where
  "fromEvent verifyEvent Number event =
     (if \<not> truthy_opt (ev_sig event) then Inl ''Event is not signed''
      else if \<not> verifyEvent event then Inl ''Event signature is invalid''
      else Inr (fold (fromEvent_tag Number) (tags event)
                  (new_InviteList 0 (pubkey event) (Some (created_at event)))))"

definition addDevice :: "InviteList \<Rightarrow> DeviceEntry \<Rightarrow> InviteList" where
  "addDevice list device =
     (if list_ex (\<lambda>r. rm_deviceId r = deviceId device) (removed list) then list
      else list\<lparr>devices := AList.update (deviceId device) device (devices list)\<rparr>)"

text \<open>\<open>removeDevice\<close>; \<open>now\<close> is \<open>Date.now()\<close>, in milliseconds.\<close>

definition removeDevice :: "int \<Rightarrow> InviteList \<Rightarrow> string \<Rightarrow> InviteList" where
  "removeDevice now list did =
     (if map_of (devices list) did = None then list
      else list\<lparr>devices := AList.delete did (devices list),
                removed := removed list @ [\<lparr>rm_deviceId = did, timestamp = now div 1000\<rparr>]\<rparr>)"

definition getDevice :: "InviteList \<Rightarrow> string \<Rightarrow> DeviceEntry option" where
  "getDevice list did = map_of (devices list) did"

definition getAllDevices :: "InviteList \<Rightarrow> DeviceEntry list" where
  "getAllDevices list = map snd (devices list)"

text \<open>The three loops of \<open>merge\<close>, one body each, then \<open>merge\<close> itself.\<close>

definition merge_removed_step ::
  "RemovedEntry \<Rightarrow> (string \<times> RemovedEntry) list \<Rightarrow> (string \<times> RemovedEntry) list" where
  "merge_removed_step r removedMap =
     (case map_of removedMap (rm_deviceId r) of
        None \<Rightarrow> AList.update (rm_deviceId r) r removedMap
      | Some existing \<Rightarrow>
          if timestamp r > timestamp existing
          then AList.update (rm_deviceId r) r removedMap else removedMap)"

definition merge_other_step ::
  "InviteList \<Rightarrow> DeviceEntry \<Rightarrow> (string \<times> (DeviceEntry \<times> InviteList)) list
     \<Rightarrow> (string \<times> (DeviceEntry \<times> InviteList)) list" where
  "merge_other_step other device allDevices =
     (case map_of allDevices (deviceId device) of
        None \<Rightarrow> AList.update (deviceId device) (device, other) allDevices
      | Some existing \<Rightarrow>
          if createdAt other > createdAt (snd existing)
          then AList.update (deviceId device) (device, other) allDevices else allDevices)"

definition merge_keep_step ::
  "(string \<times> RemovedEntry) list \<Rightarrow> DeviceEntry \<times> InviteList
     \<Rightarrow> (string \<times> DeviceEntry) list \<Rightarrow> (string \<times> DeviceEntry) list" where
  "merge_keep_step removedMap entry ds =
     (if map_of removedMap (deviceId (fst entry)) = None
      then AList.update (deviceId (fst entry)) (fst entry) ds else ds)"

definition merge :: "InviteList \<Rightarrow> InviteList \<Rightarrow> InviteList" where
  "merge this other =
     (let removedMap = fold merge_removed_step (removed this @ removed other) [];
          fromThis = fold (\<lambda>device. AList.update (deviceId device) (device, this))
                       (map snd (devices this)) [];
          allDevices = fold (merge_other_step other) (map snd (devices other)) fromThis
      in \<lparr>owner = owner this,
          devices = fold (merge_keep_step removedMap) (map snd allDevices) [],
          removed = map snd removedMap,
          mainDeviceId = (if createdAt this \<ge> createdAt other
                          then mainDeviceId this else mainDeviceId other),
          version = max (version this) (version other),
          createdAt = max (createdAt this) (createdAt other)\<rparr>)"

text \<open>The observable fields: the active devices, their ids, and the removed ids.\<close>

definition activeDevices :: "InviteList \<Rightarrow> DeviceEntry set" where
  "activeDevices list = set (getAllDevices list)"

definition activeIds :: "InviteList \<Rightarrow> string set" where
  "activeIds list = deviceId ` set (getAllDevices list)"

definition removedIds :: "InviteList \<Rightarrow> string set" where
  "removedIds list = rm_deviceId ` set (removed list)"

text \<open>
  The representation invariant of the private \<open>devices\<close> map: every entry is stored
  under its own \<open>deviceId\<close> (all writers use \<open>set(device.deviceId, device)\<close>), and a
  \<open>Map\<close> has no duplicate key.
\<close>

definition keyed :: "InviteList \<Rightarrow> bool" where
  "keyed list = (list_all (\<lambda>p. fst p = deviceId (snd p)) (devices list)
                 \<and> distinct (map fst (devices list)))"

text \<open>No removed id is an active device.\<close>

definition removed_inactive :: "InviteList \<Rightarrow> bool" where
  "removed_inactive list =
     list_all (\<lambda>r. map_of (devices list) (rm_deviceId r) = None) (removed list)"

text \<open>A run of the two mutators.\<close>

datatype list_op = AddDevice DeviceEntry | RemoveDevice int string

fun apply_op :: "list_op \<Rightarrow> InviteList \<Rightarrow> InviteList" where
  "apply_op (AddDevice d) list = addDevice list d"
| "apply_op (RemoveDevice now did) list = removeDevice now list did"

text \<open>
  What \<open>merge\<close> computes for one device id, read off its two device loops: the entry
  of the list with the greater \<open>createdAt\<close>, and the entry of \<open>this\<close> on a tie.
\<close>

definition preferred :: "InviteList \<Rightarrow> InviteList \<Rightarrow> string \<Rightarrow> DeviceEntry option" where
  "preferred this other k =
     (case getDevice this k of
        None \<Rightarrow> getDevice other k
      | Some d \<Rightarrow>
          (case getDevice other k of
             None \<Rightarrow> Some d
           | Some d' \<Rightarrow> if createdAt other > createdAt this then Some d' else Some d))"

text \<open>Two lists agree when every device id they share names the same entry in both.\<close>

definition agree :: "InviteList \<Rightarrow> InviteList \<Rightarrow> bool" where
  "agree a b =
     list_all (\<lambda>p. getDevice b (fst p) = None \<or> getDevice b (fst p) = Some (snd p))
       (devices a)"

text \<open>Sample data for the closed instances below.\<close>

definition phone :: DeviceEntry where
  "phone = \<lparr>ephemeralPublicKey = ''eph1'', sharedSecret = ''secret1'', deviceId = ''d1'',
            label = ''Phone'', ephemeralPrivateKey = None\<rparr>"

definition laptop :: DeviceEntry where
  "laptop = \<lparr>ephemeralPublicKey = ''eph2'', sharedSecret = ''secret2'', deviceId = ''d2'',
             label = ''Laptop'', ephemeralPrivateKey = None\<rparr>"

definition list_event :: Event where
  "list_event =
     \<lparr>kind = 10078, pubkey = ''owner'', created_at = 1700000000,
      tags = [[''d'', ''double-ratchet/invite-list''],
              [''device'', ''eph1'', ''secret1'', ''d1'', ''Phone''],
              [''removed'', ''d1'', ''1700000000'']],
      content = [], ev_id = Some ''id1'', ev_sig = Some ''sig1''\<rparr>"

definition parsed_list :: InviteList where
  "parsed_list =
     \<lparr>owner = ''owner'', devices = [(''d1'', phone)],
      removed = [\<lparr>rm_deviceId = ''d1'', timestamp = 1700000000\<rparr>],
      mainDeviceId = None, version = 1, createdAt = 1700000000\<rparr>"

definition tablet :: DeviceEntry where
  "tablet = phone\<lparr>label := ''Tablet''\<rparr>"

definition list_a :: InviteList where
  "list_a = addDevice (create 1000000 ''owner'') phone"

definition list_b :: InviteList where
  "list_b = addDevice (create 2000000 ''owner'') laptop"

definition list_t :: InviteList where
  "list_t = addDevice (create 1000000 ''owner'') tablet"

definition list_r :: InviteList where
  "list_r = removeDevice 5000999 list_a ''d1''"

section \<open>ControllableRelay: the event store of the relay\<close>

text \<open>
  What signing an unsigned event with \<open>NDKEvent\<close> yields: the id, the signature
  (absent when no signer key is given) and the tags of the signed event.  The signing
  library is a collaborator, so \<open>publish\<close> takes it as an argument.
\<close>

record ndk_signed =
  ndk_id :: string
  ndk_sig :: "string option"
  ndk_tags :: "string list list"

type_synonym ndk = "Event \<Rightarrow> bytes option \<Rightarrow> ndk_signed"

text \<open>\<open>'id' in event && 'sig' in event && event.id && event.sig\<close>\<close>

definition already_signed :: "Event \<Rightarrow> bool" where
  "already_signed event = (truthy_opt (ev_id event) \<and> truthy_opt (ev_sig event))"

definition verifiedEvent :: "ndk \<Rightarrow> Event \<Rightarrow> bytes option \<Rightarrow> Event" where
  "verifiedEvent sign event signerSecretKey =
     (if already_signed event then event
      else let s = sign event signerSecretKey
           in event\<lparr>ev_id := Some (ndk_id s), ev_sig := ndk_sig s, tags := ndk_tags s\<rparr>)"

text \<open>\<open>tags?.find((t) => t[0] === "d")?.[1]\<close>\<close>

definition dTag_of :: "string list list \<Rightarrow> string option" where
  "dTag_of ts = (case find (\<lambda>t. tag_at t 0 = Some ''d'') ts of
                   None \<Rightarrow> None | Some t \<Rightarrow> tag_at t 1)"

definition dTag :: "Event \<Rightarrow> string option" where
  "dTag e = dTag_of (tags e)"

definition replaceable :: "int \<Rightarrow> bool" where
  "replaceable k = (10000 \<le> k \<and> k < 20000)"

text \<open>
  The loop over the stored events: the first stored event of the same kind, pubkey and
  d-tag is deleted by its key, and the loop stops there.
\<close>

definition same_slot :: "Event \<Rightarrow> Event \<Rightarrow> bool" where
  "same_slot event e = (kind e = kind event \<and> pubkey e = pubkey event \<and> dTag e = dTag event)"

definition replace_older :: "Event \<Rightarrow> (string \<times> Event) list \<Rightarrow> (string \<times> Event) list" where
  "replace_older event events =
     (case find (\<lambda>p. same_slot event (snd p)) events of
        None \<Rightarrow> events
      | Some p \<Rightarrow> AList.delete (fst p) events)"

text \<open>The key of the store is \<open>verifiedEvent.id\<close>.\<close>

definition event_key :: "Event \<Rightarrow> string" where
  "event_key e = (case ev_id e of None \<Rightarrow> [] | Some i \<Rightarrow> i)"

text \<open>
  \<open>publish\<close> reads and writes the \<open>events\<close> map only; it returns the new map and the
  stored event.  It is an \<open>async\<close> function whose one \<open>await\<close> is the signing: all
  it does to the map comes after, without another \<open>await\<close>, so the map sees the
  calls one at a time.
\<close>

definition publish ::
  "ndk \<Rightarrow> (string \<times> Event) list \<Rightarrow> Event \<Rightarrow> bytes option \<Rightarrow> (string \<times> Event) list \<times> Event" where
  "publish sign events event signerSecretKey =
     (let v = verifiedEvent sign event signerSecretKey;
          events' = (if kind event \<ge> 10000 \<and> kind event < 20000
                     then replace_older event events else events)
      in (AList.update (event_key v) v events', v))"

definition getEvents :: "(string \<times> Event) list \<Rightarrow> Event list" where
  "getEvents events = map snd events"

text \<open>A sequence of \<open>publish\<close> calls on a new relay, in the order they reach the map.\<close>

definition publish_all :: "ndk \<Rightarrow> (Event \<times> bytes option) list \<Rightarrow> (string \<times> Event) list" where
  "publish_all sign pubs = fold (\<lambda>p events. fst (publish sign events (fst p) (snd p))) pubs []"

text \<open>The event one \<open>publish\<close> call stores.\<close>

definition stored_as :: "ndk \<Rightarrow> Event \<times> bytes option \<Rightarrow> Event" where
  "stored_as sign p = verifiedEvent sign (fst p) (snd p)"

text \<open>The events of one \<open>(pubkey, kind, d-tag)\<close> tuple.\<close>

definition in_slot :: "string \<Rightarrow> int \<Rightarrow> string option \<Rightarrow> Event \<Rightarrow> bool" where
  "in_slot pk k d e = (pubkey e = pk \<and> kind e = k \<and> dTag e = d)"

text \<open>
  The store as the replaceable-event rule describes it, on the stored events in the
  order of publication: an event of a kind \<open>10000 \<le> kind < 20000\<close> is kept until a
  later event of its \<open>(pubkey, kind, d-tag)\<close> tuple is published; every other event is
  kept, once, where it was first published.  It is compared below with what \<open>publish\<close>
  computes.
\<close>

fun retained :: "Event list \<Rightarrow> Event list" where
  "retained [] = []"
| "retained (e # es) =
     (if replaceable (kind e)
      then (if list_ex (same_slot e) es then retained es else e # retained es)
      else e # removeAll e (retained es))"

text \<open>Signing leaves the d-tag of the event as it is.\<close>

definition keeps_dTag :: "ndk \<Rightarrow> bool" where
  "keeps_dTag sign = (\<forall>e key. dTag_of (ndk_tags (sign e key)) = dTag e)"

text \<open>The id of an event identifies it: events with one id are one event.\<close>

definition ids_identify :: "Event list \<Rightarrow> bool" where
  "ids_identify es =
     list_all (\<lambda>a. list_all (\<lambda>b. event_key a = event_key b \<longrightarrow> a = b) es) es"

text \<open>A signer for the closed instances: the content is the id.\<close>

definition sample_sign :: ndk where
  "sample_sign e key = \<lparr>ndk_id = content e, ndk_sig = Some ''sig'', ndk_tags = tags e\<rparr>"

definition first_event :: Event where
  "first_event = \<lparr>kind = 10078, pubkey = ''alice'', created_at = 1,
                   tags = [[''d'', ''test'']], content = ''first'',
                   ev_id = None, ev_sig = None\<rparr>"

definition second_event :: Event where
  "second_event = first_event\<lparr>created_at := 2, content := ''second''\<rparr>"

definition third_event :: Event where
  "third_event = first_event\<lparr>created_at := 3, tags := [[''d'', ''other'']], content := ''third''\<rparr>"

section \<open>The invite response: collaborators\<close>

text \<open>
  A JavaScript value as \<open>JSON.parse\<close> returns it.  Reading a property of \<open>null\<close>
  throws a \<open>TypeError\<close> (\<open>None\<close>); on an object it is a lookup, \<open>undefined\<close>
  (\<open>Some None\<close>) for a missing key; on every other value the properties read here are
  \<open>undefined\<close>.
\<close>

datatype json = JNull | JBool bool | JNum int | JStr string | JArr "json list"
  | JObj "(string \<times> json) list"

fun js_prop :: "json \<Rightarrow> string \<Rightarrow> json option option" where
  "js_prop JNull key = None"
| "js_prop (JObj props) key = Some (map_of props key)"
| "js_prop v key = Some None"

text \<open>
  The collaborators of the handshake (\<open>nostr-tools\<close>, \<open>@noble/hashes\<close>, the JSON codec)
  and the event kind of \<open>types.ts\<close>, as arguments.  A collaborator that can throw returns
  an option.  \<open>nip44.encrypt\<close> draws a random nonce; the nonce is its third argument.
\<close>

record crypto =
  hexToBytes :: "string \<Rightarrow> bytes option"
  getPublicKey :: "bytes \<Rightarrow> string"
  getConversationKey :: "bytes \<Rightarrow> string \<Rightarrow> bytes option"
  nip44_encrypt :: "string \<Rightarrow> bytes \<Rightarrow> bytes \<Rightarrow> string option"
  nip44_decrypt :: "string \<Rightarrow> bytes \<Rightarrow> string option"
  JSON_stringify :: "json \<Rightarrow> string"
  JSON_parse :: "string \<Rightarrow> json option"
  getEventHash :: "Event \<Rightarrow> string"
  schnorr_sign :: "string \<Rightarrow> bytes \<Rightarrow> string"
  INVITE_RESPONSE_KIND :: int

text \<open>
  What one call of \<open>encryptInviteResponse\<close> draws from its environment: the clock
  (\<open>Date.now()\<close>, milliseconds), the value of \<open>randomNow()\<close>, the random sender key
  and the three nonces.
\<close>

record draws =
  now_ms :: int
  randomNow :: int
  randomSenderKey :: bytes
  nonce1 :: bytes
  nonce2 :: bytes
  nonce3 :: bytes

text \<open>\<open>finalizeEvent(t, secretKey)\<close>: sets \<open>pubkey\<close>, then \<open>id\<close>, then \<open>sig\<close>.\<close>

definition finalizeEvent :: "crypto \<Rightarrow> Event \<Rightarrow> bytes \<Rightarrow> Event" where
  "finalizeEvent C t secretKey =
     (let e = t\<lparr>pubkey := getPublicKey C secretKey\<rparr>;
          h = getEventHash C e
      in e\<lparr>ev_id := Some h, ev_sig := Some (schnorr_sign C h secretKey)\<rparr>)"

text \<open>
  The two objects the handshake serialises.  \<open>JSON.stringify\<close> leaves out a property
  whose value is \<open>undefined\<close>.
\<close>

definition payload_json :: "string \<Rightarrow> string option \<Rightarrow> json" where
  "payload_json sessionKey inviteeDeviceId =
     JObj ((''sessionKey'', JStr sessionKey)
           # (case inviteeDeviceId of None \<Rightarrow> [] | Some d \<Rightarrow> [(''deviceId'', JStr d)]))"

definition inner_json :: "string \<Rightarrow> string \<Rightarrow> int \<Rightarrow> json" where
  "inner_json pk c t = JObj [(''pubkey'', JStr pk), (''content'', JStr c), (''created_at'', JNum t)]"

section \<open>inviteUtils: the two-layer invite response\<close>

definition encryptInviteResponse ::
  "crypto \<Rightarrow> draws \<Rightarrow> string \<Rightarrow> string \<Rightarrow> bytes \<Rightarrow> string \<Rightarrow> string \<Rightarrow> string
     \<Rightarrow> string option \<Rightarrow> Event option" where
  "encryptInviteResponse C D inviteeSessionPublicKey inviteePublicKey inviteePrivateKey
       inviterPublicKey inviterEphemeralPublicKey sharedSecretHex inviteeDeviceId =
     do {
       sharedSecretBytes \<leftarrow> hexToBytes C sharedSecretHex;
       let payload = JSON_stringify C (payload_json inviteeSessionPublicKey inviteeDeviceId);
       dhKey \<leftarrow> getConversationKey C inviteePrivateKey inviterPublicKey;
       dhEncrypted \<leftarrow> nip44_encrypt C payload dhKey (nonce1 D);
       innerContent \<leftarrow> nip44_encrypt C dhEncrypted sharedSecretBytes (nonce2 D);
       let innerJson = JSON_stringify C
                         (inner_json inviteePublicKey innerContent (now_ms D div 1000));
       let randomSenderPublicKey = getPublicKey C (randomSenderKey D);
       envelopeKey \<leftarrow> getConversationKey C (randomSenderKey D) inviterEphemeralPublicKey;
       envelopeContent \<leftarrow> nip44_encrypt C innerJson envelopeKey (nonce3 D);
       Some (finalizeEvent C
               \<lparr>kind = INVITE_RESPONSE_KIND C, pubkey = randomSenderPublicKey,
                created_at = randomNow D, tags = [[''p'', inviterEphemeralPublicKey]],
                content = envelopeContent, ev_id = None, ev_sig = None\<rparr>
               (randomSenderKey D))
     }"

text \<open>
  The result of \<open>decryptInviteResponse\<close>.  \<open>sessionKey\<close> and \<open>deviceId\<close> are whatever
  the parsed payload holds under these names: a JavaScript value, or \<open>undefined\<close>.
\<close>

record DecryptInviteResponseResult =
  res_inviteePublicKey :: string
  res_sessionKey :: "json option"
  res_deviceId :: "json option"

text \<open>
  The \<open>try\<close>/\<open>catch\<close> at the end of \<open>decryptInviteResponse\<close> and of the handler of
  \<open>Invite.listen\<close>: a payload that does not parse, or parses to \<open>null\<close>, is itself the
  session key.
\<close>

definition parse_payload :: "crypto \<Rightarrow> string \<Rightarrow> json option \<times> json option" where
  "parse_payload C decryptedPayload =
     (case JSON_parse C decryptedPayload of
        None \<Rightarrow> (Some (JStr decryptedPayload), None)
      | Some parsed \<Rightarrow>
          (case js_prop parsed ''sessionKey'' of
             None \<Rightarrow> (Some (JStr decryptedPayload), None)
           | Some sessionKey \<Rightarrow>
               (case js_prop parsed ''deviceId'' of
                  None \<Rightarrow> (Some (JStr decryptedPayload), None)
                | Some inviteeDeviceId \<Rightarrow> (sessionKey, inviteeDeviceId))))"

text \<open>
  The collaborators take strings: a ciphertext or a public key that is not a string
  makes them throw.
\<close>

definition as_string :: "json option \<Rightarrow> string option" where
  "as_string v = (case v of Some (JStr s) \<Rightarrow> Some s | _ \<Rightarrow> None)"

definition decryptInviteResponse ::
  "crypto \<Rightarrow> Event \<Rightarrow> bytes \<Rightarrow> bytes \<Rightarrow> string \<Rightarrow> DecryptInviteResponseResult option" where
  "decryptInviteResponse C event inviterEphemeralPrivateKey inviterPrivateKey sharedSecretHex =
     do {
       sharedSecretBytes \<leftarrow> hexToBytes C sharedSecretHex;
       envelopeKey \<leftarrow> getConversationKey C inviterEphemeralPrivateKey (pubkey event);
       decrypted \<leftarrow> nip44_decrypt C (content event) envelopeKey;
       innerEvent \<leftarrow> JSON_parse C decrypted;
       innerPubkey \<leftarrow> js_prop innerEvent ''pubkey'';
       innerContent \<leftarrow> js_prop innerEvent ''content'';
       ciphertext \<leftarrow> as_string innerContent;
       dhEncrypted \<leftarrow> nip44_decrypt C ciphertext sharedSecretBytes;
       inviteePublicKey \<leftarrow> as_string innerPubkey;
       dhKey \<leftarrow> getConversationKey C inviterPrivateKey inviteePublicKey;
       decryptedPayload \<leftarrow> nip44_decrypt C dhEncrypted dhKey;
       let (sessionKey, inviteeDeviceId) = parse_payload C decryptedPayload;
       Some \<lparr>res_inviteePublicKey = inviteePublicKey, res_sessionKey = sessionKey,
             res_deviceId = inviteeDeviceId\<rparr>
     }"

text \<open>
  What the handshake asks of its collaborators: decryption under the key of the
  encryption returns the plaintext; the conversation key of a pair is the same from
  either side; \<open>JSON.parse\<close> inverts \<open>JSON.stringify\<close> on the two objects above.
\<close>

definition crypto_ok :: "crypto \<Rightarrow> bool" where
  "crypto_ok C =
     ((\<forall>m k n c. nip44_encrypt C m k n = Some c \<longrightarrow> nip44_decrypt C c k = Some m)
      \<and> (\<forall>a b. getConversationKey C a (getPublicKey C b)
                 = getConversationKey C b (getPublicKey C a))
      \<and> (\<forall>s d. JSON_parse C (JSON_stringify C (payload_json s d)) = Some (payload_json s d))
      \<and> (\<forall>p c t. JSON_parse C (JSON_stringify C (inner_json p c t)) = Some (inner_json p c t)))"

section \<open>Invite: listening for responses\<close>

text \<open>
  What \<open>createSessionFromAccept\<close> hands to \<open>Session.init\<close>.  \<open>Session.init\<close> is
  taken as an argument that may throw.  \<open>freshKey\<close> is the secret key
  \<open>generateEphemeralKeypair\<close> draws when no key pair is given.  The private key of a
  given pair is passed on as it is, \<open>undefined\<close> included.
\<close>

record SessionInit =
  theirEphemeralNostrPublicKey :: "json option"
  ourEphemeralNostrPrivateKey :: "bytes option"
  isInitiator :: bool
  sharedSecretBytes :: bytes
  sessionName :: "string option"

definition createSessionFromAccept ::
  "crypto \<Rightarrow> (SessionInit \<Rightarrow> 's option) \<Rightarrow> bytes \<Rightarrow> json option \<Rightarrow> string \<Rightarrow> bool
     \<Rightarrow> (string \<times> bytes option) option \<Rightarrow> string option
     \<Rightarrow> ('s \<times> string \<times> bytes option) option" where
  "createSessionFromAccept C Session_init freshKey theirKey secretHex initiator ourKeyPair nm =
     do {
       secretBytes \<leftarrow> hexToBytes C secretHex;
       let sessionKey = (case ourKeyPair of
                           Some kp \<Rightarrow> kp
                         | None \<Rightarrow> (getPublicKey C freshKey, Some freshKey));
       session \<leftarrow> Session_init
                    \<lparr>theirEphemeralNostrPublicKey = theirKey,
                     ourEphemeralNostrPrivateKey = snd sessionKey,
                     isInitiator = initiator, sharedSecretBytes = secretBytes,
                     sessionName = nm\<rparr>;
       Some (session, sessionKey)
     }"

text \<open>
  The decryptor of \<open>listen\<close>: the inviter's private key, or a function from the
  ciphertext and the invitee's identity to a promise of the plaintext; \<open>None\<close> is a
  promise that rejects.  The identity is what the inner event holds under \<open>pubkey\<close>,
  any JavaScript value or \<open>undefined\<close>; \<open>usedBy\<close> holds the identities as the handler
  pushes them.
\<close>

datatype decryptor = KeyDecryptor bytes | FnDecryptor "string \<Rightarrow> json option \<Rightarrow> string option"

record Invite =
  inviterEphemeralPublicKey :: string
  inv_sharedSecret :: string
  inviter :: string
  inviterEphemeralPrivateKey :: "bytes option"
  inv_deviceId :: "string option"
  maxUses :: "int option"
  usedBy :: "json option list"
  inv_createdAt :: int

text \<open>
  \<open>this.maxUses && this.usedBy.length >= this.maxUses\<close>: a number is truthy when it is
  not zero, \<open>undefined\<close> is falsy.
\<close>

definition uses_exhausted :: "Invite \<Rightarrow> bool" where
  "uses_exhausted invite =
     (case maxUses invite of
        None \<Rightarrow> False
      | Some m \<Rightarrow> m \<noteq> 0 \<and> int (length (usedBy invite)) \<ge> m)"

text \<open>
  The handler \<open>listen\<close> subscribes is an \<open>async\<close> function.  When the subscription
  delivers an event it runs up to its \<open>await\<close> and is suspended there; it runs on to
  its end when the promise it awaits has settled, and other handlers may have started
  or ended in between.  A suspended handler holds its event and the promise: the one
  of \<open>decryptor(dhEncrypted, inviteeIdentity)\<close>, with the identity read before it, or
  the one of \<open>decryptInviteResponse\<close>, whose body has no \<open>await\<close> and has run when
  the call returns.  A promise that rejects is \<open>None\<close>.
\<close>

datatype awaited =
    Decryptor_promise "json option" "string option"
  | Response_promise "DecryptInviteResponseResult option"

record suspended =
  sus_event :: Event
  sus_awaited :: awaited

text \<open>
  The handler from the delivery of \<open>event\<close> to its \<open>await\<close>: the guard on \<open>maxUses\<close>,
  then the branch of the decryptor.  \<open>None\<close>: the handler has returned, or has thrown
  into its own \<open>catch\<close>, before it awaits anything.  A collaborator that is given
  \<open>undefined\<close> for a key throws.
\<close>

definition listen_start :: "crypto \<Rightarrow> decryptor \<Rightarrow> Invite \<Rightarrow> Event \<Rightarrow> suspended option" where
  "listen_start C dec invite event =
     (if uses_exhausted invite then None
      else
        (case dec of
           FnDecryptor f \<Rightarrow>
             do {
               ephPrivateKey \<leftarrow> inviterEphemeralPrivateKey invite;
               envelopeKey \<leftarrow> getConversationKey C ephPrivateKey (pubkey event);
               decrypted \<leftarrow> nip44_decrypt C (content event) envelopeKey;
               innerEvent \<leftarrow> JSON_parse C decrypted;
               secretBytes \<leftarrow> hexToBytes C (inv_sharedSecret invite);
               inviteeIdentity \<leftarrow> js_prop innerEvent ''pubkey'';
               innerContent \<leftarrow> js_prop innerEvent ''content'';
               ciphertext \<leftarrow> as_string innerContent;
               dhEncrypted \<leftarrow> nip44_decrypt C ciphertext secretBytes;
               Some \<lparr>sus_event = event,
                     sus_awaited = Decryptor_promise inviteeIdentity
                                     (f dhEncrypted inviteeIdentity)\<rparr>
             }
         | KeyDecryptor inviterPrivateKey \<Rightarrow>
             Some \<lparr>sus_event = event,
                   sus_awaited = Response_promise
                     (do {
                        ephPrivateKey \<leftarrow> inviterEphemeralPrivateKey invite;
                        decryptInviteResponse C event ephPrivateKey inviterPrivateKey
                          (inv_sharedSecret invite)
                      })\<rparr>))"

text \<open>
  The handler after its \<open>await\<close>, on the invite as it is by then: \<open>usedBy.push\<close>,
  \<open>createSessionFromAccept\<close>, \<open>onSession\<close>.  It returns the invite as it leaves it
  and the arguments of the \<open>onSession\<close> call, if it makes one.  Everything thrown is
  caught and dropped.
\<close>

definition listen_finish ::
  "crypto \<Rightarrow> (SessionInit \<Rightarrow> 's option) \<Rightarrow> Invite \<Rightarrow> Event \<Rightarrow> json option \<Rightarrow> json option
     \<Rightarrow> json option \<Rightarrow> Invite \<times> ('s \<times> json option \<times> json option) option" where
  "listen_finish C Session_init invite event inviteeIdentity inviteeSessionPublicKey devId =
     (let invite' = invite\<lparr>usedBy := usedBy invite @ [inviteeIdentity]\<rparr>
      in case createSessionFromAccept C Session_init [] inviteeSessionPublicKey
                (inv_sharedSecret invite) False
                (Some (inviterEphemeralPublicKey invite, inviterEphemeralPrivateKey invite))
                (ev_id event) of
           None \<Rightarrow> (invite', None)
         | Some (session, _) \<Rightarrow> (invite', Some (session, inviteeIdentity, devId)))"

definition listen_resume ::
  "crypto \<Rightarrow> (SessionInit \<Rightarrow> 's option) \<Rightarrow> Invite \<Rightarrow> suspended
     \<Rightarrow> Invite \<times> ('s \<times> json option \<times> json option) option" where
  "listen_resume C Session_init invite h =
     (case sus_awaited h of
        Decryptor_promise inviteeIdentity None \<Rightarrow> (invite, None)
      | Decryptor_promise inviteeIdentity (Some decryptedPayload) \<Rightarrow>
          (let (inviteeSessionPublicKey, devId) = parse_payload C decryptedPayload
           in listen_finish C Session_init invite (sus_event h) inviteeIdentity
                inviteeSessionPublicKey devId)
      | Response_promise None \<Rightarrow> (invite, None)
      | Response_promise (Some result) \<Rightarrow>
          listen_finish C Session_init invite (sus_event h)
            (Some (JStr (res_inviteePublicKey result))) (res_sessionKey result)
            (res_deviceId result))"

text \<open>\<open>listen\<close> itself: it throws without the ephemeral private key.\<close>

definition listen :: "Invite \<Rightarrow> string + unit" where
  "listen invite =
     (case inviterEphemeralPrivateKey invite of
        None \<Rightarrow> Inl ''Inviter session key is not available''
      | Some _ \<Rightarrow> Inr ())"

text \<open>
  A listening invite: the invite, the suspended handlers in the order they started,
  and the \<open>onSession\<close> calls made so far.  The event loop does one of two things next:
  the subscription delivers an event, or the promise of the \<open>i\<close>-th suspended handler
  settles and that handler runs to its end.
\<close>

record 's listening =
  lis_invite :: Invite
  lis_suspended :: "suspended list"
  lis_sessions :: "('s \<times> json option \<times> json option) list"

datatype tick = Deliver Event | Settle nat

fun listen_step ::
  "crypto \<Rightarrow> (SessionInit \<Rightarrow> 's option) \<Rightarrow> decryptor \<Rightarrow> 's listening \<Rightarrow> tick \<Rightarrow> 's listening" where
  "listen_step C Session_init dec L (Deliver event) =
     (case listen_start C dec (lis_invite L) event of
        None \<Rightarrow> L
      | Some h \<Rightarrow> L\<lparr>lis_suspended := lis_suspended L @ [h]\<rparr>)"
| "listen_step C Session_init dec L (Settle i) =
     (if i < length (lis_suspended L) then
        (let (invite', call) = listen_resume C Session_init (lis_invite L) (lis_suspended L ! i)
         in L\<lparr>lis_invite := invite',
              lis_suspended := take i (lis_suspended L) @ drop (Suc i) (lis_suspended L),
              lis_sessions := lis_sessions L @ (case call of None \<Rightarrow> [] | Some c \<Rightarrow> [c])\<rparr>)
      else L)"

definition listen_run ::
  "crypto \<Rightarrow> (SessionInit \<Rightarrow> 's option) \<Rightarrow> decryptor \<Rightarrow> 's listening \<Rightarrow> tick list \<Rightarrow> 's listening" where
  "listen_run C Session_init dec L ticks = foldl (listen_step C Session_init dec) L ticks"


definition listening_on :: "Invite \<Rightarrow> 's listening" where
  "listening_on invite = \<lparr>lis_invite = invite, lis_suspended = [], lis_sessions = []\<rparr>"

section \<open>A small instance of the collaborators\<close>

text \<open>
  A concrete \<open>crypto\<close> for the closed instances: a ciphertext is the key, a bar and the
  plaintext; every pair shares one conversation key; strings are serialised with their
  length in unary in front.
\<close>

definition show_key :: "bytes \<Rightarrow> string" where
  "show_key k = map (\<lambda>w. char_of (unat w + 48)) k"

definition toy_encrypt :: "string \<Rightarrow> bytes \<Rightarrow> bytes \<Rightarrow> string option" where
  "toy_encrypt m k n = (if m = [] then None else Some (show_key k @ CHR ''|'' # m))"

definition toy_decrypt :: "string \<Rightarrow> bytes \<Rightarrow> string option" where
  "toy_decrypt c k =
     (if take (Suc (length k)) c = show_key k @ [CHR ''|''] \<and> drop (Suc (length k)) c \<noteq> []
      then Some (drop (Suc (length k)) c) else None)"

definition put_str :: "string \<Rightarrow> string" where
  "put_str s = replicate (length s) CHR ''1'' @ CHR ''0'' # s"

definition take_str :: "string \<Rightarrow> string \<times> string" where
  "take_str t =
     (let n = length (takeWhile (\<lambda>c. c = CHR ''1'') t)
      in (take n (drop (Suc n) t), drop (Suc n + n) t))"

definition put_int :: "int \<Rightarrow> string" where
  "put_int i = (if i < 0 then CHR ''-'' else CHR ''+'') # replicate (nat \<bar>i\<bar>) CHR ''1''"

definition take_int :: "string \<Rightarrow> int" where
  "take_int t =
     (case t of
        [] \<Rightarrow> 0
      | s # r \<Rightarrow> if s = CHR ''-'' then - int (length r) else int (length r))"

definition toy_stringify :: "json \<Rightarrow> string" where
  "toy_stringify j =
     (case j of
        JObj props \<Rightarrow>
          (case map snd props of
             [JStr s] \<Rightarrow> CHR ''P'' # put_str s
           | [JStr s, JStr d] \<Rightarrow> CHR ''Q'' # put_str s @ put_str d
           | [JStr p, JStr c, JNum t] \<Rightarrow> CHR ''I'' # put_str p @ put_str c @ put_int t
           | _ \<Rightarrow> [])
      | _ \<Rightarrow> [])"

definition toy_parse :: "string \<Rightarrow> json option" where
  "toy_parse t =
     (case t of
        [] \<Rightarrow> None
      | c # r \<Rightarrow>
          if c = CHR ''P'' then Some (payload_json (fst (take_str r)) None)
          else if c = CHR ''Q'' then
            Some (payload_json (fst (take_str r)) (Some (fst (take_str (snd (take_str r))))))
          else if c = CHR ''I'' then
            Some (inner_json (fst (take_str r)) (fst (take_str (snd (take_str r))))
                    (take_int (snd (take_str (snd (take_str r))))))
          else None)"

definition toy :: crypto where
  "toy =
     \<lparr>hexToBytes = (\<lambda>s. if s = [] then None else Some [of_nat (length s)]),
      getPublicKey = (\<lambda>k. ''pk:'' @ show_key k),
      getConversationKey = (\<lambda>k p. if take 3 p = ''pk:'' then Some [7] else None),
      nip44_encrypt = toy_encrypt,
      nip44_decrypt = toy_decrypt,
      JSON_stringify = toy_stringify,
      JSON_parse = toy_parse,
      getEventHash = content,
      schnorr_sign = (\<lambda>h k. ''sig''),
      INVITE_RESPONSE_KIND = 1059\<rparr>"

definition toy_draws :: draws where
  "toy_draws = \<lparr>now_ms = 5000, randomNow = 3, randomSenderKey = [9], nonce1 = [], nonce2 = [],
                 nonce3 = []\<rparr>"

text \<open>
  The response of an invitee with identity key \<open>[2]\<close> and session key \<open>''S''\<close> to an
  inviter with identity key \<open>[1]\<close>, ephemeral key \<open>[3]\<close> and shared secret \<open>''00''\<close>.
\<close>

definition toy_response :: Event where
  "toy_response =
     \<lparr>kind = 1059, pubkey = ''pk:9'', created_at = 3, tags = [[''p'', ''pk:3'']],
      content = ''7|I11110pk:211111111111111102|7|Q10S1110dev+11111'',
      ev_id = Some ''7|I11110pk:211111111111111102|7|Q10S1110dev+11111'',
      ev_sig = Some ''sig''\<rparr>"

text \<open>
  A second response to the same inviter: an invitee with identity key \<open>[4]\<close> and
  session key \<open>''T''\<close>, who names no device.
\<close>

definition other_response :: Event where
  "other_response =
     \<lparr>kind = 1059, pubkey = ''pk:8'', created_at = 4, tags = [[''p'', ''pk:3'']],
      content = ''7|I11110pk:41111111102|7|P10T+11111'',
      ev_id = Some ''7|I11110pk:41111111102|7|P10T+11111'',
      ev_sig = Some ''sig''\<rparr>"

text \<open>
  Three invites of the inviter: one with \<open>maxUses = 0\<close>, one with \<open>maxUses = 1\<close>, and
  the second as it listens after the first response has been handled.
\<close>

definition open_invite :: Invite where
  "open_invite =
     \<lparr>inviterEphemeralPublicKey = ''pk:3'', inv_sharedSecret = ''00'',
      inviter = ''pk:1'', inviterEphemeralPrivateKey = Some [3],
      inv_deviceId = None, maxUses = Some 0, usedBy = [], inv_createdAt = 0\<rparr>"

definition single_invite :: Invite where
  "single_invite = open_invite\<lparr>maxUses := Some 1\<rparr>"


section \<open>Session: the receiving side of the ratchet\<close>

text \<open>
  Modelled from the spec: \<open>Session.ts\<close> (the class \<open>Session\<close> with \<open>init\<close>, \<open>send\<close>,
  \<open>decryptEvent\<close> and the skipped-key cache) is not among the sources; only its tests
  and callers are.  The state is the \<open>SessionState\<close> of section 3 of the spec.  Message
  counters are natural numbers.  The spec gives \<open>headerKeys\<close> a place in an entry of
  \<open>skippedKeys\<close> and no rule; the model carries them unread.
\<close>

record KeyPair =
  publicKey :: string
  privateKey :: bytes

record SkippedEntry =
  headerKeys :: "bytes list"
  messageKeys :: "(nat \<times> bytes) list"

record SessionState =
  rootKey :: bytes
  sendingChainKey :: "bytes option"
  receivingChainKey :: "bytes option"
  sendingChainMessageNumber :: nat
  receivingChainMessageNumber :: nat
  previousSendingChainMessageCount :: nat
  ourCurrentRatchetKey :: "KeyPair option"
  ourNextRatchetKey :: "KeyPair option"
  theirCurrentRatchetPublic :: "string option"
  theirNextRatchetPublic :: "string option"
  skippedKeys :: "(string \<times> SkippedEntry) list"

text \<open>
  Modelled from the spec: the ratchet primitives of section 4.1 (\<open>kdf1\<close>, \<open>kdf2\<close>,
  \<open>kdf3\<close>, the DH conversation key, the constant of the chain step), the AEAD and the
  serialisation of the inner event, which the spec leaves to collaborators, and the two
  header readings the spec writes \<open>messageNumber(event)\<close> and
  \<open>previousSendingChainMessageCount\<close>.  The spec names a per-session aggregate cap of
  the skipped-key cache and gives it no value: \<open>aggregate_cap\<close>.
\<close>

record ratchet =
  kdf1 :: "bytes \<Rightarrow> bytes \<Rightarrow> bytes"
  kdf2 :: "bytes \<Rightarrow> bytes \<Rightarrow> bytes \<times> bytes"
  kdf3 :: "bytes \<Rightarrow> bytes \<Rightarrow> bytes \<times> bytes \<times> bytes"
  DH :: "bytes \<Rightarrow> string \<Rightarrow> bytes"
  public_of :: "bytes \<Rightarrow> string"
  chain_const :: bytes
  aead_encrypt :: "string \<Rightarrow> bytes \<Rightarrow> string"
  aead_decrypt :: "string \<Rightarrow> bytes \<Rightarrow> string option"
  serialize :: "Event \<Rightarrow> string"
  deserialize :: "string \<Rightarrow> Event option"
  messageNumber :: "Event \<Rightarrow> nat"
  previousCount :: "Event \<Rightarrow> nat"
  header_tag :: "nat \<Rightarrow> nat \<Rightarrow> string option \<Rightarrow> string list"
  MESSAGE_KIND :: int
  aggregate_cap :: nat

text \<open>Modelled from the spec: \<open>MAX_SKIP = 1000\<close> (section 4.2, skipped-key cache bound).\<close>

definition MAX_SKIP :: nat where
  "MAX_SKIP = 1000"

text \<open>
  Modelled from the spec: the chain step of section 4.1,
  \<open>chainKey, messageKey = kdf2(chainKey, const)\<close>.
\<close>

definition chain_step :: "ratchet \<Rightarrow> bytes \<Rightarrow> bytes \<times> bytes" where
  "chain_step R chainKey = kdf2 R chainKey (chain_const R)"

text \<open>
  Modelled from the spec: deriving the skipped keys of \<open>count\<close> consecutive message
  numbers from \<open>n\<close> on, each by one chain step; the result is the chain key after them
  and the message keys by number.
\<close>

fun skip_keys :: "ratchet \<Rightarrow> bytes \<Rightarrow> nat \<Rightarrow> nat \<Rightarrow> bytes \<times> (nat \<times> bytes) list" where
  "skip_keys R chainKey n 0 = (chainKey, [])"
| "skip_keys R chainKey n (Suc count) =
     (let (chainKey', messageKey) = chain_step R chainKey;
          (chainKey'', rest) = skip_keys R chainKey' (Suc n) count
      in (chainKey'', (n, messageKey) # rest))"

text \<open>
  Modelled from the spec: the cache \<open>skippedKeys\<close>, a map in insertion order from a
  peer ratchet public key to an entry.  \<open>entry_size\<close> is the number of message keys of
  one key's entry, \<open>cached_total\<close> the number over the session.  \<open>cache_keys\<close> adds
  message keys to an entry, making the entry at the end when there is none.
\<close>

definition entry_size :: "(string \<times> SkippedEntry) list \<Rightarrow> string \<Rightarrow> nat" where
  "entry_size cache pub =
     (case map_of cache pub of None \<Rightarrow> 0 | Some entry \<Rightarrow> length (messageKeys entry))"

definition cached_total :: "(string \<times> SkippedEntry) list \<Rightarrow> nat" where
  "cached_total cache = sum_list (map (\<lambda>p. length (messageKeys (snd p))) cache)"

definition cache_keys ::
  "string \<Rightarrow> (nat \<times> bytes) list \<Rightarrow> (string \<times> SkippedEntry) list \<Rightarrow> (string \<times> SkippedEntry) list" where
  "cache_keys pub keys cache =
     (if keys = [] then cache
      else case map_of cache pub of
             None \<Rightarrow> cache @ [(pub, \<lparr>headerKeys = [], messageKeys = keys\<rparr>)]
           | Some entry \<Rightarrow>
               AList.update pub (entry\<lparr>messageKeys := messageKeys entry @ keys\<rparr>) cache)"

text \<open>
  Modelled from the spec: "per-session aggregate cap MUST be enforced.  On overflow, the
  oldest ratchet-public entry (FIFO on insertion) is evicted wholesale".
\<close>

definition evict_oldest ::
  "ratchet \<Rightarrow> (string \<times> SkippedEntry) list \<Rightarrow> (string \<times> SkippedEntry) list" where
  "evict_oldest R cache = (if cached_total cache > aggregate_cap R then tl cache else cache)"

text \<open>
  Modelled from the spec: "each \<open>skippedKeys[peerRatchetPub]\<close> entry holds at most
  \<open>MAX_SKIP\<close> message keys", "refuse to derive more", "new attempts beyond the bound
  return null".  \<open>advance_chain\<close> takes a receiving chain from counter \<open>n\<close> to the
  message numbered \<open>target\<close>: it caches the keys of the numbers in between under
  \<open>pub\<close> and yields the message key of \<open>target\<close>, the chain key after it and the new
  cache; it refuses (\<open>None\<close>) when the entry would grow beyond the bound.
\<close>

definition advance_chain ::
  "ratchet \<Rightarrow> string \<Rightarrow> bytes \<Rightarrow> nat \<Rightarrow> nat \<Rightarrow> (string \<times> SkippedEntry) list
     \<Rightarrow> (bytes \<times> bytes \<times> (string \<times> SkippedEntry) list) option" where
  "advance_chain R pub chainKey n target cache =
     (if entry_size cache pub + (target - n) > MAX_SKIP then None
      else
        let (chainKey', skipped) = skip_keys R chainKey n (target - n);
            (chainKey'', messageKey) = chain_step R chainKey'
        in Some (messageKey, chainKey'', evict_oldest R (cache_keys pub skipped cache)))"

text \<open>
  Modelled from the spec: "out-of-order delivery is served only from \<open>skippedKeys\<close>",
  "decrypt with that stored message key, then evict it".  \<open>stored_key\<close> looks the key
  of message \<open>n\<close> up under \<open>pub\<close>; \<open>drop_key\<close> removes it once it has served.
\<close>

definition stored_key :: "(string \<times> SkippedEntry) list \<Rightarrow> string \<Rightarrow> nat \<Rightarrow> bytes option" where
  "stored_key cache pub n =
     (case map_of cache pub of None \<Rightarrow> None | Some entry \<Rightarrow> map_of (messageKeys entry) n)"

definition drop_key ::
  "string \<Rightarrow> nat \<Rightarrow> (string \<times> SkippedEntry) list \<Rightarrow> (string \<times> SkippedEntry) list" where
  "drop_key pub n cache =
     (case map_of cache pub of
        None \<Rightarrow> cache
      | Some entry \<Rightarrow>
          AList.update pub (entry\<lparr>messageKeys := AList.delete n (messageKeys entry)\<rparr>) cache)"

text \<open>
  Modelled from the spec: the dispatch of \<open>decryptEvent\<close> by \<open>event.pubkey\<close> (section
  4.2, Receive), up to the choice of the message key.  \<open>select_key\<close> yields the message
  key and the state the session takes if the payload decrypts, or \<open>None\<close> when the
  event is for no chain of this session, a key cannot be derived, or the bound refuses.

  The current chain: a message numbered below the receiving counter is served from the
  cache; otherwise the chain advances to its number.  The next key: the DH ratchet step
  finalises the old chain up to \<open>previousSendingChainMessageCount - 1\<close>, rotates
  \<open>theirCurrent := theirNext := event.pubkey\<close>, derives the new root and receiving
  chain from \<open>DH(ourCurrentRatchetPrivate, event.pubkey)\<close>, resets the receiving counter,
  derives the new sending chain from \<open>DH(ourNextRatchetPrivate, event.pubkey)\<close>, and
  then advances the new chain to the message.  Any other key of the cache: the stored
  key.
\<close>

definition on_current_chain ::
  "ratchet \<Rightarrow> SessionState \<Rightarrow> Event \<Rightarrow> (bytes \<times> SessionState) option" where
  "on_current_chain R s event =
     (let n = messageNumber R event in
      if n < receivingChainMessageNumber s then
        (case stored_key (skippedKeys s) (pubkey event) n of
           None \<Rightarrow> None
         | Some messageKey \<Rightarrow>
             Some (messageKey, s\<lparr>skippedKeys := drop_key (pubkey event) n (skippedKeys s)\<rparr>))
      else
        (case receivingChainKey s of
           None \<Rightarrow> None
         | Some chainKey \<Rightarrow>
             (case advance_chain R (pubkey event) chainKey (receivingChainMessageNumber s) n
                     (skippedKeys s) of
                None \<Rightarrow> None
              | Some (messageKey, chainKey', cache) \<Rightarrow>
                  Some (messageKey,
                        s\<lparr>receivingChainKey := Some chainKey',
                          receivingChainMessageNumber := Suc n,
                          skippedKeys := cache\<rparr>))))"

definition finalize_old_chain ::
  "ratchet \<Rightarrow> SessionState \<Rightarrow> Event \<Rightarrow> (string \<times> SkippedEntry) list option" where
  "finalize_old_chain R s event =
     (case (theirCurrentRatchetPublic s, receivingChainKey s) of
        (Some old, Some chainKey) \<Rightarrow>
          (let n = receivingChainMessageNumber s; count = previousCount R event - n in
           if entry_size (skippedKeys s) old + count > MAX_SKIP then None
           else Some (evict_oldest R
                        (cache_keys old (snd (skip_keys R chainKey n count)) (skippedKeys s))))
      | _ \<Rightarrow> Some (skippedKeys s))"

definition dh_ratchet_step ::
  "ratchet \<Rightarrow> SessionState \<Rightarrow> Event \<Rightarrow> SessionState option" where
  "dh_ratchet_step R s event =
     (case (ourCurrentRatchetKey s, ourNextRatchetKey s, finalize_old_chain R s event) of
        (Some ourCurrent, Some ourNext, Some cache) \<Rightarrow>
          (let (root', receiving, _) =
                 kdf3 R (rootKey s) (DH R (privateKey ourCurrent) (pubkey event));
               (root'', sending, _) =
                 kdf3 R root' (DH R (privateKey ourNext) (pubkey event))
           in Some (s\<lparr>rootKey := root'',
                      theirCurrentRatchetPublic := Some (pubkey event),
                      theirNextRatchetPublic := Some (pubkey event),
                      receivingChainKey := Some receiving,
                      receivingChainMessageNumber := 0,
                      previousSendingChainMessageCount := sendingChainMessageNumber s,
                      sendingChainMessageNumber := 0,
                      sendingChainKey := Some sending,
                      skippedKeys := cache\<rparr>))
      | _ \<Rightarrow> None)"

definition select_key ::
  "ratchet \<Rightarrow> SessionState \<Rightarrow> Event \<Rightarrow> (bytes \<times> SessionState) option" where
  "select_key R s event =
     (if theirCurrentRatchetPublic s = Some (pubkey event) then on_current_chain R s event
      else if theirNextRatchetPublic s = Some (pubkey event) then
        (case dh_ratchet_step R s event of
           None \<Rightarrow> None
         | Some s' \<Rightarrow> on_current_chain R s' event)
      else
        (case stored_key (skippedKeys s) (pubkey event) (messageNumber R event) of
           None \<Rightarrow> None
         | Some messageKey \<Rightarrow>
             Some (messageKey,
                   s\<lparr>skippedKeys := drop_key (pubkey event) (messageNumber R event)
                                       (skippedKeys s)\<rparr>)))"

text \<open>
  Modelled from the spec: \<open>decryptEvent(event) -> innerEvent | null\<close>, as the pure
  \<open>decryptEventWithState\<close>: the inner event and the updated state.  "Failures during
  decryption are treated as non-fatal: the function returns null and the session state
  is not advanced.  Serialization errors of a successfully decrypted payload are also
  non-fatal."
\<close>

definition decryptEvent ::
  "ratchet \<Rightarrow> SessionState \<Rightarrow> Event \<Rightarrow> Event option \<times> SessionState" where
  "decryptEvent R s event =
     (case select_key R s event of
        None \<Rightarrow> (None, s)
      | Some (messageKey, s') \<Rightarrow>
          (case aead_decrypt R (content event) messageKey of
             None \<Rightarrow> (None, s)
           | Some plaintext \<Rightarrow>
               (case deserialize R plaintext of
                  None \<Rightarrow> (None, s)
                | Some innerEvent \<Rightarrow> (Some innerEvent, s'))))"

text \<open>
  Modelled from the spec: \<open>Session.init\<close> (section 4.2, Construction).  "Derives the
  first root key by mixing \<open>sharedSecret\<close> with \<open>DH(ourIdentityPriv, theirIdentityPub)\<close>":
  the mixing is the root ratchet step of section 4.1 from \<open>sharedSecret\<close>, and its
  chain key is the first chain, the sending chain of the initiator and the receiving
  chain of the responder.  So the initiator's first event goes out under its
  identity-derived key, and the responder, who takes that key as \<open>theirCurrent\<close>,
  decrypts it (scenario S1).  The initiator takes its current ratchet key from
  \<open>ourIdentityPriv\<close> and a fresh next key (\<open>freshKey\<close> is its secret), and sets
  \<open>theirNextRatchetPublic := theirIdentityPub\<close>.  The responder has no current ratchet
  key until its first outbound step.  The spec does not say what the responder holds as
  \<open>ourNextRatchetKey\<close> and \<open>theirNextRatchetPublic\<close>; scenario S2 does: the
  responder's first event has to come under the key the initiator awaits, the
  responder's identity key, and the DH ratchet step of that send has to agree with the
  initiator's \<open>DH(ourCurrentRatchetPrivate, event.pubkey)\<close>, so its peer key is the
  initiator's identity key.  The cache starts empty.
\<close>

definition key_pair :: "ratchet \<Rightarrow> bytes \<Rightarrow> KeyPair" where
  "key_pair R secret = \<lparr>publicKey = public_of R secret, privateKey = secret\<rparr>"

definition init :: "ratchet \<Rightarrow> bytes \<Rightarrow> string \<Rightarrow> bytes \<Rightarrow> bool \<Rightarrow> bytes \<Rightarrow> SessionState" where
  "init R freshKey theirIdentityPub ourIdentityPriv initiator secret =
     (let (root, chain, _) = kdf3 R secret (DH R ourIdentityPriv theirIdentityPub)
      in \<lparr>rootKey = root,
          sendingChainKey = (if initiator then Some chain else None),
          receivingChainKey = (if initiator then None else Some chain),
          sendingChainMessageNumber = 0, receivingChainMessageNumber = 0,
          previousSendingChainMessageCount = 0,
          ourCurrentRatchetKey = (if initiator then Some (key_pair R ourIdentityPriv) else None),
          ourNextRatchetKey =
            Some (if initiator then key_pair R freshKey else key_pair R ourIdentityPriv),
          theirCurrentRatchetPublic = (if initiator then None else Some theirIdentityPub),
          theirNextRatchetPublic = Some theirIdentityPub,
          skippedKeys = []\<rparr>)"

text \<open>
  Modelled from the spec: \<open>send(plaintext) -> {event, innerEvent}\<close> (section 4.2, Send),
  steps 1 to 6.  \<open>fresh1\<close> and \<open>fresh2\<close> are the secrets of the key pairs step 1 may
  generate; \<open>inner\<close> is the unsigned inner event without its content; \<open>jittered\<close> is
  the jittered \<open>created_at\<close>.  The signature of step 5 is not modelled: nothing on the
  receiving side reads it.  \<open>send\<close> cannot go on (\<open>None\<close>) when it has no peer key for
  the ratchet step or no current ratchet key to send under.
\<close>

definition send_ratchet_step :: "ratchet \<Rightarrow> bytes \<Rightarrow> bytes \<Rightarrow> SessionState \<Rightarrow> SessionState option" where
  "send_ratchet_step R fresh1 fresh2 s =
     (case sendingChainKey s of
        Some _ \<Rightarrow> Some s
      | None \<Rightarrow>
          (case theirNextRatchetPublic s of
             None \<Rightarrow> None
           | Some theirNext \<Rightarrow>
               (let ourNext = (case ourNextRatchetKey s of
                                 Some k \<Rightarrow> k | None \<Rightarrow> key_pair R fresh1);
                    (root', sending, nextHeaderKey) =
                      kdf3 R (rootKey s) (DH R (privateKey ourNext) theirNext)
                in Some (s\<lparr>rootKey := root', sendingChainKey := Some sending,
                           ourCurrentRatchetKey := Some ourNext,
                           ourNextRatchetKey := Some (key_pair R fresh2),
                           previousSendingChainMessageCount := sendingChainMessageNumber s,
                           sendingChainMessageNumber := 0\<rparr>))))"

definition send ::
  "ratchet \<Rightarrow> bytes \<Rightarrow> bytes \<Rightarrow> int \<Rightarrow> Event \<Rightarrow> SessionState \<Rightarrow> string
     \<Rightarrow> (Event \<times> Event \<times> SessionState) option" where
  "send R fresh1 fresh2 jittered inner s plaintext =
     (case send_ratchet_step R fresh1 fresh2 s of
        None \<Rightarrow> None
      | Some s1 \<Rightarrow>
          (case (sendingChainKey s1, ourCurrentRatchetKey s1) of
             (Some chainKey, Some ourCurrent) \<Rightarrow>
               (let (chainKey', messageKey) = chain_step R chainKey;
                    n = sendingChainMessageNumber s1;
                    innerEvent = inner\<lparr>content := plaintext\<rparr>;
                    ciphertext = aead_encrypt R (serialize R innerEvent) messageKey;
                    event = \<lparr>kind = MESSAGE_KIND R, pubkey = publicKey ourCurrent,
                             created_at = jittered,
                             tags = [header_tag R n (previousSendingChainMessageCount s1)
                                       (map_option publicKey (ourNextRatchetKey s1))],
                             content = ciphertext, ev_id = None, ev_sig = None\<rparr>
                in Some (event, innerEvent,
                         s1\<lparr>sendingChainKey := Some chainKey',
                            sendingChainMessageNumber := Suc n\<rparr>))
           | _ \<Rightarrow> None))"

text \<open>
  Modelled from the spec: a session that sends several payloads one after the other,
  and the event stream of section 4.2: \<open>onEvent\<close> sees "every successfully decrypted
  inner event, in delivery order".  \<open>decrypt_each\<close> lists the content of what each
  delivered event decrypts to, \<open>None\<close> for an event that yields null.
\<close>

fun send_each ::
  "ratchet \<Rightarrow> bytes \<Rightarrow> bytes \<Rightarrow> int \<Rightarrow> Event \<Rightarrow> SessionState \<Rightarrow> string list
     \<Rightarrow> (Event list \<times> SessionState) option" where
  "send_each R fresh1 fresh2 jittered inner s [] = Some ([], s)"
| "send_each R fresh1 fresh2 jittered inner s (plaintext # rest) =
     (case send R fresh1 fresh2 jittered inner s plaintext of
        None \<Rightarrow> None
      | Some (event, _, s') \<Rightarrow>
          (case send_each R fresh1 fresh2 jittered inner s' rest of
             None \<Rightarrow> None
           | Some (events, s'') \<Rightarrow> Some (event # events, s'')))"

fun decrypt_each ::
  "ratchet \<Rightarrow> SessionState \<Rightarrow> Event list \<Rightarrow> string option list \<times> SessionState" where
  "decrypt_each R s [] = ([], s)"
| "decrypt_each R s (event # events) =
     (let (innerEvent, s') = decryptEvent R s event;
          (rest, s'') = decrypt_each R s' events
      in (map_option content innerEvent # rest, s''))"

text \<open>
  A small \<open>ratchet\<close> for the closed instances: keys grow by one byte per derivation,
  the public key of a secret shows its bytes, the DH of a secret and a public key is the
  sum of the bytes of both secrets, the AEAD is the one of the small \<open>crypto\<close> above,
  the serialised inner event is its content, and the header tag carries the two
  counters in unary.
\<close>

definition toy_secret :: "string \<Rightarrow> bytes" where
  "toy_secret pub = map (\<lambda>c. of_char c - 48) (drop 3 pub)"

definition toy_number :: "nat \<Rightarrow> Event \<Rightarrow> nat" where
  "toy_number i e =
     (case tags e of
        [] \<Rightarrow> 0
      | t # _ \<Rightarrow> (case tag_at t i of None \<Rightarrow> 0 | Some v \<Rightarrow> length v))"

definition toy_ratchet :: ratchet where
  "toy_ratchet =
     \<lparr>kdf1 = (\<lambda>input salt. input @ salt),
      kdf2 = (\<lambda>input salt. (input @ [1], input @ [2])),
      kdf3 = (\<lambda>input salt. (input @ salt @ [1], input @ salt @ [2], input @ salt @ [3])),
      DH = (\<lambda>secret pub. [sum_list secret + sum_list (toy_secret pub)]),
      public_of = (\<lambda>secret. ''pk:'' @ show_key secret),
      chain_const = [],
      aead_encrypt = (\<lambda>m k. show_key k @ CHR ''|'' # m),
      aead_decrypt = toy_decrypt,
      serialize = content,
      deserialize = (\<lambda>text. Some \<lparr>kind = 14, pubkey = ''alice'', created_at = 0, tags = [],
                                     content = text, ev_id = None, ev_sig = None\<rparr>),
      messageNumber = toy_number 1,
      previousCount = toy_number 2,
      header_tag = (\<lambda>n p h. [''header'', replicate n CHR ''1'', replicate p CHR ''1'']),
      MESSAGE_KIND = 1060,
      aggregate_cap = 1000\<rparr>"

text \<open>
  Alice, an initiator fresh from \<open>init\<close>, and Bob, her responder: their identity
  secrets are \<open>[1]\<close> and \<open>[2]\<close>, the shared secret is \<open>[0]\<close>.  \<open>blank\<close> is an inner
  event before \<open>send\<close> fills in the content.
\<close>

definition alice0 :: SessionState where
  "alice0 = init toy_ratchet [4] ''pk:2'' [1] True [0]"

definition bob0 :: SessionState where
  "bob0 = init toy_ratchet [5] ''pk:1'' [2] False [0]"

definition blank :: Event where
  "blank = \<lparr>kind = 14, pubkey = ''alice'', created_at = 0, tags = [], content = [],
            ev_id = None, ev_sig = None\<rparr>"

text \<open>
  Three events under Bob's key \<open>''pk:2''\<close>, all numbered 2: the third event Bob sends,
  one whose content is no ciphertext, and one under a key the session does not know.
\<close>

definition good_event :: Event where
  "good_event = \<lparr>kind = 1060, pubkey = ''pk:2'', created_at = 0,
                  tags = [[''header'', ''11'', []]], content = ''03132112|hello'',
                  ev_id = None, ev_sig = None\<rparr>"




section \<open>Properties of rotateSession\<close>

lemma slice_last_snoc: "slice_last (xs @ [x]) = [x]"
  by (simp add: slice_last_def)

text \<open>
  Claim C8.  \<open>rotateSession(record, next)\<close>: with no active session, \<open>next\<close> is
  installed and \<open>inactiveSessions\<close> is untouched; when \<open>next\<close> is the active object
  itself or carries the active session's name, it replaces the active session in place
  and nothing is demoted; otherwise the active session is demoted and
  \<open>inactiveSessions\<close> is cut down to that one session (length at most 1, every older
  entry dropped), and \<open>next\<close> becomes active.
\<close>

theorem rotateSession_cases:
  "(activeSession r = None \<longrightarrow>
      rotateSession r n = r\<lparr>activeSession := Some n\<rparr>)
   \<and> (activeSession r = Some c \<and> (same_object c n \<or> name c = name n) \<longrightarrow>
      rotateSession r n = r\<lparr>activeSession := Some n\<rparr>)
   \<and> (activeSession r = Some c \<and> \<not> same_object c n \<and> name c \<noteq> name n \<longrightarrow>
      rotateSession r n = r\<lparr>inactiveSessions := [c], activeSession := Some n\<rparr>
      \<and> length (inactiveSessions (rotateSession r n)) \<le> 1)"
  by (simp add: rotateSession_def slice_last_snoc Let_def)

theorem rotateSession_cases_witness:
  "rotateSession (createDeviceRecord 0 ''d1'') \<lparr>ref = 1, name = ''s1''\<rparr>
     = (createDeviceRecord 0 ''d1'')\<lparr>activeSession := Some \<lparr>ref = 1, name = ''s1''\<rparr>\<rparr>
   \<and> rotateSession ((createDeviceRecord 0 ''d1'')\<lparr>activeSession := Some \<lparr>ref = 1, name = ''s1''\<rparr>\<rparr>)
        \<lparr>ref = 2, name = ''s1''\<rparr>
     = (createDeviceRecord 0 ''d1'')\<lparr>activeSession := Some \<lparr>ref = 2, name = ''s1''\<rparr>\<rparr>
   \<and> rotateSession ((createDeviceRecord 0 ''d1'')
          \<lparr>activeSession := Some \<lparr>ref = 2, name = ''s2''\<rparr>,
           inactiveSessions := [\<lparr>ref = 1, name = ''s1''\<rparr>]\<rparr>)
        \<lparr>ref = 3, name = ''s3''\<rparr>
     = (createDeviceRecord 0 ''d1'')
          \<lparr>activeSession := Some \<lparr>ref = 3, name = ''s3''\<rparr>,
           inactiveSessions := [\<lparr>ref = 2, name = ''s2''\<rparr>]\<rparr>"
proof -
  let ?r0 = "createDeviceRecord 0 ''d1''"
  let ?s1 = "\<lparr>ref = 1, name = ''s1''\<rparr>"
  let ?s1' = "\<lparr>ref = 2, name = ''s1''\<rparr>"
  let ?s2 = "\<lparr>ref = 2, name = ''s2''\<rparr>"
  let ?s3 = "\<lparr>ref = 3, name = ''s3''\<rparr>"
  have a: "activeSession ?r0 = None"
    by (simp add: createDeviceRecord_def)
  have b: "activeSession (?r0\<lparr>activeSession := Some ?s1\<rparr>) = Some ?s1
           \<and> (same_object ?s1 ?s1' \<or> name ?s1 = name ?s1')"
    by simp
  have c: "activeSession (?r0\<lparr>activeSession := Some ?s2, inactiveSessions := [?s1]\<rparr>) = Some ?s2
           \<and> \<not> same_object ?s2 ?s3 \<and> name ?s2 \<noteq> name ?s3"
    by (simp add: same_object_def)
  from a have 1: "rotateSession ?r0 ?s1 = ?r0\<lparr>activeSession := Some ?s1\<rparr>"
    using rotateSession_cases [of ?r0 ?s1] by blast
  from b have 2: "rotateSession (?r0\<lparr>activeSession := Some ?s1\<rparr>) ?s1'
                  = ?r0\<lparr>activeSession := Some ?s1'\<rparr>"
    using rotateSession_cases [of "?r0\<lparr>activeSession := Some ?s1\<rparr>" ?s1' ?s1]
    by (simp add: createDeviceRecord_def)
  from c have 3: "rotateSession (?r0\<lparr>activeSession := Some ?s2, inactiveSessions := [?s1]\<rparr>) ?s3
                  = ?r0\<lparr>activeSession := Some ?s3, inactiveSessions := [?s2]\<rparr>"
    using rotateSession_cases
      [of "?r0\<lparr>activeSession := Some ?s2, inactiveSessions := [?s1]\<rparr>" ?s3 ?s2]
    by (simp add: createDeviceRecord_def)
  from 1 2 3 show ?thesis by simp
qed

section \<open>Properties of InviteList\<close>

subsection \<open>addDevice and removeDevice\<close>

lemma removed_inactive_create: "removed_inactive (create now own)"
  by (simp add: removed_inactive_def create_def new_InviteList_def)

lemma addDevice_removed_noop:
  "deviceId d \<in> removedIds l \<Longrightarrow> addDevice l d = l"
  by (auto simp: addDevice_def removedIds_def list_ex_iff)

lemma removed_inactive_addDevice:
  "removed_inactive l \<Longrightarrow> removed_inactive (addDevice l d)"
  by (auto simp: removed_inactive_def addDevice_def list_all_iff list_ex_iff update_conv')

lemma removed_inactive_removeDevice:
  "removed_inactive l \<Longrightarrow> removed_inactive (removeDevice now l did)"
  by (auto simp: removed_inactive_def removeDevice_def list_all_iff delete_conv')

lemma removeDevice_moves:
  "getDevice l did \<noteq> None \<Longrightarrow>
     removeDevice now l did
       = l\<lparr>devices := AList.delete did (devices l),
            removed := removed l @ [\<lparr>rm_deviceId = did, timestamp = now div 1000\<rparr>]\<rparr>
     \<and> getDevice (removeDevice now l did) did = None
     \<and> did \<in> removedIds (removeDevice now l did)"
  by (auto simp: removeDevice_def getDevice_def removedIds_def delete_conv')

lemma apply_op_keeps_out:
  "did \<in> removedIds l \<Longrightarrow> getDevice l did = None \<Longrightarrow>
     did \<in> removedIds (apply_op x l) \<and> getDevice (apply_op x l) did = None"
  by (cases x)
     (auto simp: addDevice_def removeDevice_def getDevice_def removedIds_def
                 list_ex_iff update_conv' delete_conv')

lemma fold_apply_op_keeps_out:
  "did \<in> removedIds l \<Longrightarrow> getDevice l did = None \<Longrightarrow>
     did \<in> removedIds (fold apply_op ops l) \<and> getDevice (fold apply_op ops l) did = None"
  by (induction ops arbitrary: l) (simp_all add: apply_op_keeps_out)

lemma removed_inactive_fold:
  "removed_inactive l \<Longrightarrow> removed_inactive (fold apply_op ops l)"
proof (induction ops arbitrary: l)
  case Nil then show ?case by simp
next
  case (Cons x ops)
  have "removed_inactive (apply_op x l)"
    using Cons.prems by (cases x) (simp_all add: removed_inactive_addDevice removed_inactive_removeDevice)
  then show ?case using Cons.IH by simp
qed

subsection \<open>merge: the removed entries\<close>

lemma keys_merge_removed_step:
  "fst ` set (merge_removed_step r m) = insert (rm_deviceId r) (fst ` set m)"
proof (cases "map_of m (rm_deviceId r)")
  case None
  then show ?thesis by (simp add: merge_removed_step_def dom_update)
next
  case (Some ex)
  then have "rm_deviceId r \<in> fst ` set m"
    by (metis domI dom_map_of_conv_image_fst)
  with Some show ?thesis
    by (auto simp: merge_removed_step_def dom_update)
qed

lemma keys_fold_merge_removed:
  "fst ` set (fold merge_removed_step rs m) = fst ` set m \<union> rm_deviceId ` set rs"
  by (induction rs arbitrary: m) (auto simp: keys_merge_removed_step)

lemma set_update_cases:
  "p \<in> set (AList.update k v al) \<Longrightarrow> p = (k, v) \<or> p \<in> set al"
  by (induction al) (auto split: if_splits)

lemma own_key_merge_removed_step:
  "\<forall>p\<in>set m. fst p = rm_deviceId (snd p) \<Longrightarrow>
   \<forall>p\<in>set (merge_removed_step r m). fst p = rm_deviceId (snd p)"
  by (auto simp: merge_removed_step_def split: option.splits if_splits dest!: set_update_cases)

lemma own_key_fold_merge_removed:
  "\<forall>p\<in>set m. fst p = rm_deviceId (snd p) \<Longrightarrow>
   \<forall>p\<in>set (fold merge_removed_step rs m). fst p = rm_deviceId (snd p)"
proof (induction rs arbitrary: m)
  case Nil then show ?case by simp
next
  case (Cons r rs)
  show ?case using Cons.IH [OF own_key_merge_removed_step [OF Cons.prems]] by simp
qed

lemma removedIds_merge: "removedIds (merge a b) = removedIds a \<union> removedIds b"
proof -
  let ?rm = "fold merge_removed_step (removed a @ removed b) []"
  have own: "\<forall>p\<in>set ?rm. fst p = rm_deviceId (snd p)"
    by (rule own_key_fold_merge_removed) simp
  have "removedIds (merge a b) = (rm_deviceId \<circ> snd) ` set ?rm"
    by (simp add: removedIds_def merge_def Let_def image_comp)
  also have "\<dots> = fst ` set ?rm"
    using own by (intro image_cong) auto
  also have "\<dots> = removedIds a \<union> removedIds b"
    by (simp add: keys_fold_merge_removed removedIds_def image_Un)
  finally show ?thesis .
qed

lemma removedMap_None:
  "map_of (fold merge_removed_step (removed a @ removed b) []) k = None
     \<longleftrightarrow> k \<notin> removedIds a \<union> removedIds b"
  by (simp add: map_of_eq_None_iff keys_fold_merge_removed removedIds_def image_Un)

subsection \<open>merge: the device loops, by lookup\<close>

lemma map_of_fold_fromThis:
  "list_all (\<lambda>p. fst p = deviceId (snd p)) ps \<Longrightarrow> distinct (map fst ps) \<Longrightarrow>
   map_of (fold (\<lambda>device. AList.update (deviceId device) (device, this)) (map snd ps) m) k
     = (case map_of ps k of None \<Rightarrow> map_of m k | Some d \<Rightarrow> Some (d, this))"
proof (induction ps arbitrary: m)
  case Nil then show ?case by simp
next
  case (Cons p ps)
  obtain i d where p: "p = (i, d)" by (cases p)
  from Cons.prems p have i: "i = deviceId d" and rest: "list_all (\<lambda>p. fst p = deviceId (snd p)) ps"
    and dist: "distinct (map fst ps)" and fresh: "i \<notin> fst ` set ps" by auto
  from fresh have none: "map_of ps i = None" by (simp add: map_of_eq_None_iff)
  show ?case
    using Cons.IH [OF rest dist, of "AList.update (deviceId d) (d, this) m"] p i none
    by (auto simp: update_conv' split: option.splits)
qed

lemma map_of_fold_other:
  "list_all (\<lambda>p. fst p = deviceId (snd p)) ps \<Longrightarrow> distinct (map fst ps) \<Longrightarrow>
   map_of (fold (merge_other_step other) (map snd ps) m) k
     = (case map_of ps k of
          None \<Rightarrow> map_of m k
        | Some d \<Rightarrow>
            (case map_of m k of
               None \<Rightarrow> Some (d, other)
             | Some ex \<Rightarrow> if createdAt other > createdAt (snd ex)
                          then Some (d, other) else Some ex))"
proof (induction ps arbitrary: m)
  case Nil then show ?case by simp
next
  case (Cons p ps)
  obtain i d where p: "p = (i, d)" by (cases p)
  from Cons.prems p have i: "i = deviceId d" and rest: "list_all (\<lambda>p. fst p = deviceId (snd p)) ps"
    and dist: "distinct (map fst ps)" and fresh: "i \<notin> fst ` set ps" by auto
  from fresh have none: "map_of ps i = None" by (simp add: map_of_eq_None_iff)
  have step: "map_of (merge_other_step other d m) k
     = (if k = i then (case map_of m k of None \<Rightarrow> Some (d, other)
             | Some ex \<Rightarrow> if createdAt other > createdAt (snd ex)
                          then Some (d, other) else Some ex) else map_of m k)"
    using i by (auto simp: merge_other_step_def update_conv' split: option.splits)
  show ?case
    using Cons.IH [OF rest dist, of "merge_other_step other d m"] p none step
    by (auto split: option.splits)
qed

lemma map_of_fold_keep:
  "list_all (\<lambda>p. fst p = deviceId (fst (snd p))) ps \<Longrightarrow> distinct (map fst ps) \<Longrightarrow>
   map_of (fold (merge_keep_step rm) (map snd ps) m) k
     = (case map_of ps k of
          None \<Rightarrow> map_of m k
        | Some e \<Rightarrow> if map_of rm k = None then Some (fst e) else map_of m k)"
proof (induction ps arbitrary: m)
  case Nil then show ?case by simp
next
  case (Cons p ps)
  obtain i e where p: "p = (i, e)" by (cases p)
  from Cons.prems p have i: "i = deviceId (fst e)"
    and rest: "list_all (\<lambda>p. fst p = deviceId (fst (snd p))) ps"
    and dist: "distinct (map fst ps)" and fresh: "i \<notin> fst ` set ps" by auto
  from fresh have none: "map_of ps i = None" by (simp add: map_of_eq_None_iff)
  have step: "map_of (merge_keep_step rm e m) k
     = (if k = i \<and> map_of rm k = None then Some (fst e) else map_of m k)"
    using i by (auto simp: merge_keep_step_def update_conv')
  show ?case
    using Cons.IH [OF rest dist, of "merge_keep_step rm e m"] p none step
    by (auto split: option.splits)
qed

lemma fromThis_shape:
  "(\<forall>p\<in>set m. fst p = deviceId (fst (snd p))) \<and> distinct (map fst m) \<Longrightarrow>
   (\<forall>p\<in>set (fold (\<lambda>device. AList.update (deviceId device) (device, this)) ds m).
        fst p = deviceId (fst (snd p)))
   \<and> distinct (map fst (fold (\<lambda>device. AList.update (deviceId device) (device, this)) ds m))"
proof (induction ds arbitrary: m)
  case Nil then show ?case by simp
next
  case (Cons d ds)
  have "(\<forall>p\<in>set (AList.update (deviceId d) (d, this) m). fst p = deviceId (fst (snd p)))
        \<and> distinct (map fst (AList.update (deviceId d) (d, this) m))"
    using Cons.prems by (auto dest: set_update_cases simp: distinct_update)
  from Cons.IH [OF this] show ?case by simp
qed

lemma other_step_shape:
  "(\<forall>p\<in>set m. fst p = deviceId (fst (snd p))) \<and> distinct (map fst m) \<Longrightarrow>
   (\<forall>p\<in>set (merge_other_step other d m). fst p = deviceId (fst (snd p)))
   \<and> distinct (map fst (merge_other_step other d m))"
  by (auto simp: merge_other_step_def distinct_update split: option.splits dest: set_update_cases)

lemma other_shape:
  "(\<forall>p\<in>set m. fst p = deviceId (fst (snd p))) \<and> distinct (map fst m) \<Longrightarrow>
   (\<forall>p\<in>set (fold (merge_other_step other) ds m). fst p = deviceId (fst (snd p)))
   \<and> distinct (map fst (fold (merge_other_step other) ds m))"
proof (induction ds arbitrary: m)
  case Nil then show ?case by simp
next
  case (Cons d ds)
  from Cons.IH [OF other_step_shape [OF Cons.prems]] show ?case by simp
qed

lemma keep_step_shape:
  "(\<forall>p\<in>set m. fst p = deviceId (snd p)) \<and> distinct (map fst m) \<Longrightarrow>
   (\<forall>p\<in>set (merge_keep_step rm e m). fst p = deviceId (snd p))
   \<and> distinct (map fst (merge_keep_step rm e m))"
  by (auto simp: merge_keep_step_def distinct_update dest: set_update_cases)

lemma keep_shape:
  "(\<forall>p\<in>set m. fst p = deviceId (snd p)) \<and> distinct (map fst m) \<Longrightarrow>
   (\<forall>p\<in>set (fold (merge_keep_step rm) es m). fst p = deviceId (snd p))
   \<and> distinct (map fst (fold (merge_keep_step rm) es m))"
proof (induction es arbitrary: m)
  case Nil then show ?case by simp
next
  case (Cons e es)
  from Cons.IH [OF keep_step_shape [OF Cons.prems]] show ?case by simp
qed

lemma keyed_merge: "keyed (merge a b)"
  using keep_shape [of "[]"] by (simp add: keyed_def merge_def Let_def list_all_iff)

lemma keys_fromThis:
  "fst ` set (fold (\<lambda>device. AList.update (deviceId device) (device, this)) ds m)
     = fst ` set m \<union> deviceId ` set ds"
  by (induction ds arbitrary: m) (auto simp: dom_update)

lemma keys_other_step:
  "fst ` set (merge_other_step other d m) = insert (deviceId d) (fst ` set m)"
proof (cases "map_of m (deviceId d)")
  case None
  then show ?thesis by (simp add: merge_other_step_def dom_update)
next
  case (Some ex)
  then have "deviceId d \<in> fst ` set m"
    by (metis domI dom_map_of_conv_image_fst)
  with Some show ?thesis
    by (auto simp: merge_other_step_def dom_update)
qed

lemma keys_other:
  "fst ` set (fold (merge_other_step other) ds m) = fst ` set m \<union> deviceId ` set ds"
  by (induction ds arbitrary: m) (auto simp: keys_other_step)

text \<open>The lookup of the merged device map, from the lookup of the union map.\<close>

lemma getDevice_merge_raw:
  fixes a b :: InviteList
  defines "allDevices \<equiv> fold (merge_other_step b) (map snd (devices b))
             (fold (\<lambda>device. AList.update (deviceId device) (device, a)) (map snd (devices a)) [])"
  shows "getDevice (merge a b) k
     = (case map_of allDevices k of
          None \<Rightarrow> None
        | Some e \<Rightarrow> if k \<in> removedIds a \<union> removedIds b then None else Some (fst e))"
proof -
  have shape: "(\<forall>p\<in>set allDevices. fst p = deviceId (fst (snd p))) \<and> distinct (map fst allDevices)"
    unfolding allDevices_def by (intro other_shape fromThis_shape) simp
  then have 1: "list_all (\<lambda>p. fst p = deviceId (fst (snd p))) allDevices"
    and 2: "distinct (map fst allDevices)" by (simp_all add: list_all_iff)
  have "getDevice (merge a b) k
      = map_of (fold (merge_keep_step (fold merge_removed_step (removed a @ removed b) []))
                  (map snd allDevices) []) k"
    by (simp add: getDevice_def merge_def Let_def allDevices_def)
  also have "\<dots> = (case map_of allDevices k of
          None \<Rightarrow> None
        | Some e \<Rightarrow> if k \<in> removedIds a \<union> removedIds b then None else Some (fst e))"
    by (simp add: map_of_fold_keep [OF 1 2] removedMap_None del: fold_append split: option.splits)
  finally show ?thesis .
qed

lemma activeIds_keys:
  "\<forall>p\<in>set (devices l). fst p = deviceId (snd p) \<Longrightarrow> activeIds l = fst ` set (devices l)"
  by (force simp: activeIds_def getAllDevices_def image_iff)

lemma activeIds_merge:
  "activeIds (merge a b) = (activeIds a \<union> activeIds b) - (removedIds a \<union> removedIds b)"
proof -
  let ?all = "fold (merge_other_step b) (map snd (devices b))
             (fold (\<lambda>device. AList.update (deviceId device) (device, a)) (map snd (devices a)) [])"
  have keys: "fst ` set ?all = activeIds a \<union> activeIds b"
    by (simp add: keys_other keys_fromThis activeIds_def getAllDevices_def)
  have "keyed (merge a b)" by (rule keyed_merge)
  then have "activeIds (merge a b) = fst ` set (devices (merge a b))"
    by (intro activeIds_keys) (simp add: keyed_def list_all_iff)
  also have "\<dots> = {k. getDevice (merge a b) k \<noteq> None}"
    by (auto simp: getDevice_def map_of_eq_None_iff)
  also have "\<dots> = {k. map_of ?all k \<noteq> None} - (removedIds a \<union> removedIds b)"
    by (auto simp: getDevice_merge_raw split: option.splits)
  also have "{k. map_of ?all k \<noteq> None} = fst ` set ?all"
    by (auto simp: map_of_eq_None_iff)
  finally show ?thesis by (simp add: keys)
qed

lemma getDevice_merge:
  assumes "keyed a" "keyed b"
  shows "getDevice (merge a b) k
     = (if k \<in> removedIds a \<union> removedIds b then None else preferred a b k)"
proof -
  from assms have a: "list_all (\<lambda>p. fst p = deviceId (snd p)) (devices a)" "distinct (map fst (devices a))"
    and b: "list_all (\<lambda>p. fst p = deviceId (snd p)) (devices b)" "distinct (map fst (devices b))"
    by (simp_all add: keyed_def)
  show ?thesis
    unfolding getDevice_merge_raw
    by (simp add: map_of_fold_other [OF b] map_of_fold_fromThis [OF a]
          preferred_def getDevice_def split: option.splits)
qed

lemma activeDevices_ran:
  "distinct (map fst (devices l)) \<Longrightarrow> activeDevices l = ran (getDevice l)"
  unfolding activeDevices_def getAllDevices_def getDevice_def
  by (simp add: ran_distinct)

lemma activeDevices_merge:
  assumes "keyed a" "keyed b"
  shows "activeDevices (merge a b)
     = {d. \<exists>k. k \<notin> removedIds a \<union> removedIds b \<and> preferred a b k = Some d}"
proof -
  have "distinct (map fst (devices (merge a b)))"
    using keyed_merge [of a b] by (simp add: keyed_def)
  then have "activeDevices (merge a b) = ran (getDevice (merge a b))"
    by (rule activeDevices_ran)
  then show ?thesis
    by (auto simp: ran_def getDevice_merge [OF assms])
qed

lemma removed_inactive_merge: "removed_inactive (merge a b)"
proof -
  have "\<forall>k\<in>removedIds (merge a b). getDevice (merge a b) k = None"
    by (simp add: removedIds_merge getDevice_merge_raw split: option.splits)
  then show ?thesis
    by (simp add: removed_inactive_def list_all_iff removedIds_def getDevice_def)
qed

lemma keyed_lookup:
  "keyed l \<Longrightarrow> getDevice l k = Some d \<Longrightarrow> deviceId d = k"
  by (auto simp: keyed_def getDevice_def list_all_iff dest!: map_of_SomeD)

lemma preferred_same: "preferred a a k = getDevice a k"
  by (simp add: preferred_def split: option.splits)

lemma agree_lookup:
  assumes "agree a b" "getDevice a k = Some d" "getDevice b k = Some d'"
  shows "d = d'"
proof -
  from assms(2) have "(k, d) \<in> set (devices a)"
    by (simp add: getDevice_def map_of_SomeD)
  with assms(1) have "getDevice b k = None \<or> getDevice b k = Some d"
    by (force simp: agree_def list_all_iff)
  with assms(3) show ?thesis by simp
qed

lemma preferred_commute:
  assumes "createdAt a \<noteq> createdAt b \<or> agree a b"
  shows "preferred a b k = preferred b a k"
  using assms agree_lookup [of a b k]
  by (auto simp: preferred_def split: option.splits)

subsection \<open>merge: the observable fields\<close>

text \<open>
  Claim C6, as amended.  For all invite lists \<open>a\<close> and \<open>b\<close>, \<open>a.merge(b)\<close> and
  \<open>b.merge(a)\<close> have the same set of active device ids and the same set of removed
  ids.  They have the same set of active device entries as well whenever the two
  \<open>createdAt\<close> differ or the lists agree on every device id they share (on a tie,
  \<open>merge\<close> keeps the entry of the list it is called on).  \<open>a.merge(a)\<close> has the
  removed ids of \<open>a\<close>, and its active devices are those of \<open>a\<close> whose id is not
  removed in \<open>a\<close>: all of them when no removed id is active in \<open>a\<close>.
\<close>

theorem merge_observables:
  "activeIds (merge a b) = activeIds (merge b a)
   \<and> removedIds (merge a b) = removedIds (merge b a)
   \<and> (keyed a \<and> keyed b \<and> (createdAt a \<noteq> createdAt b \<or> agree a b) \<longrightarrow>
        activeDevices (merge a b) = activeDevices (merge b a))
   \<and> removedIds (merge a a) = removedIds a
   \<and> (keyed a \<longrightarrow>
        activeDevices (merge a a) = {d \<in> activeDevices a. deviceId d \<notin> removedIds a})
   \<and> (keyed a \<and> removed_inactive a \<longrightarrow> activeDevices (merge a a) = activeDevices a)"
proof (intro conjI impI)
  show "activeIds (merge a b) = activeIds (merge b a)"
    by (simp add: activeIds_merge Un_commute)
  show "removedIds (merge a b) = removedIds (merge b a)"
    by (simp add: removedIds_merge Un_commute)
  show "removedIds (merge a a) = removedIds a"
    by (simp add: removedIds_merge)
next
  assume h: "keyed a \<and> keyed b \<and> (createdAt a \<noteq> createdAt b \<or> agree a b)"
  then have "\<And>k. preferred a b k = preferred b a k"
    by (intro preferred_commute) simp
  with h show "activeDevices (merge a b) = activeDevices (merge b a)"
    by (simp add: activeDevices_merge Un_commute)
next
  assume k: "keyed a"
  have ran: "activeDevices a = ran (getDevice a)"
    using k by (intro activeDevices_ran) (simp add: keyed_def)
  show "activeDevices (merge a a) = {d \<in> activeDevices a. deviceId d \<notin> removedIds a}"
    using keyed_lookup [OF k]
    by (auto simp: activeDevices_merge [OF k k] preferred_same ran ran_def)
next
  assume h: "keyed a \<and> removed_inactive a"
  then have k: "keyed a" by simp
  have ran: "activeDevices a = ran (getDevice a)"
    using k by (intro activeDevices_ran) (simp add: keyed_def)
  have out: "\<And>j d. getDevice a j = Some d \<Longrightarrow> j \<notin> removedIds a"
    using h by (auto simp: removed_inactive_def list_all_iff removedIds_def getDevice_def)
  show "activeDevices (merge a a) = activeDevices a"
    using out by (auto simp: activeDevices_merge [OF k k] preferred_same ran ran_def)
qed

lemmas sample_defs = list_a_def list_b_def list_t_def tablet_def phone_def laptop_def
  create_def new_InviteList_def addDevice_def

lemmas merge_eval = merge_def Let_def merge_removed_step_def merge_other_step_def
  merge_keep_step_def activeDevices_def getAllDevices_def activeIds_def removedIds_def

text \<open>
  The claim as stated fails twice.  Two lists created in the same second that hold
  different entries under one device id merge to different device sets, depending on
  the receiver; and a list parsed from an event that names one id in a \<open>device\<close> tag
  and in a \<open>removed\<close> tag loses that device when merged with itself.
\<close>

theorem merge_tie_counterexample:
  "createdAt list_a = createdAt list_t
   \<and> activeDevices (merge list_a list_t) = {phone}
   \<and> activeDevices (merge list_t list_a) = {tablet}
   \<and> phone \<noteq> tablet
   \<and> fromEvent (\<lambda>e. True) (\<lambda>s. 1700000000) list_event = Inr parsed_list
   \<and> activeIds parsed_list = {''d1''}
   \<and> activeIds (merge parsed_list parsed_list) = {}"
  by (simp add: sample_defs merge_eval fromEvent_def fromEvent_tag_def list_event_def
        parsed_list_def truthy_opt_def truthy_def tag_at_def)

theorem merge_observables_witness:
  "keyed list_a \<and> keyed list_b \<and> createdAt list_a \<noteq> createdAt list_b
   \<and> removed_inactive list_a
   \<and> activeDevices (merge list_a list_b) = activeDevices (merge list_b list_a)
   \<and> activeIds (merge list_a list_b) = {''d1'', ''d2''}
   \<and> removedIds (merge list_a list_b) = {}
   \<and> activeDevices (merge list_a list_a) = activeDevices list_a"
proof -
  have h: "keyed list_a \<and> keyed list_b \<and> createdAt list_a \<noteq> createdAt list_b
           \<and> removed_inactive list_a"
    by (simp add: sample_defs keyed_def removed_inactive_def)
  have ids: "activeIds (merge list_a list_b) = {''d1'', ''d2''}
             \<and> removedIds (merge list_a list_b) = {}"
    by (simp add: sample_defs merge_eval)
  from h ids merge_observables [of list_a list_b] merge_observables [of list_a list_a]
  show ?thesis by simp
qed

subsection \<open>Removed ids stay out of the device map\<close>

text \<open>
  What \<open>create\<close>, \<open>addDevice\<close>, \<open>removeDevice\<close> and \<open>merge\<close> do about removed
  ids.  In every invite list they build, no id of \<open>removed\<close> is a key of \<open>devices\<close>:
  \<open>create\<close> and \<open>merge\<close> yield such a list, and \<open>addDevice\<close>, \<open>removeDevice\<close>
  and every run of the two keep it.  \<open>addDevice\<close> of an id in \<open>removed\<close> changes
  nothing, so an id that is removed and inactive stays removed and inactive through
  every run of \<open>addDevice\<close> and \<open>removeDevice\<close>.  \<open>removeDevice\<close> of an active id
  deletes it from \<open>devices\<close> and appends it to \<open>removed\<close> with the timestamp
  \<open>Math.floor(Date.now() / 1000)\<close>.
\<close>

lemma removed_stays_inactive:
  "removed_inactive (create now own)
   \<and> removed_inactive (merge a b)
   \<and> (removed_inactive l \<longrightarrow>
        removed_inactive (addDevice l d) \<and> removed_inactive (removeDevice now l did)
        \<and> removed_inactive (fold apply_op ops l))
   \<and> (deviceId d \<in> removedIds l \<longrightarrow> addDevice l d = l)
   \<and> (did \<in> removedIds l \<and> getDevice l did = None \<longrightarrow>
        did \<in> removedIds (fold apply_op ops l) \<and> getDevice (fold apply_op ops l) did = None)
   \<and> (getDevice l did \<noteq> None \<longrightarrow>
        removeDevice now l did
          = l\<lparr>devices := AList.delete did (devices l),
               removed := removed l @ [\<lparr>rm_deviceId = did, timestamp = now div 1000\<rparr>]\<rparr>
        \<and> getDevice (removeDevice now l did) did = None
        \<and> did \<in> removedIds (removeDevice now l did))"
proof (intro conjI impI)
  show "removed_inactive (create now own)" by (rule removed_inactive_create)
  show "removed_inactive (merge a b)" by (rule removed_inactive_merge)
  show "deviceId d \<in> removedIds l \<Longrightarrow> addDevice l d = l" by (rule addDevice_removed_noop)
next
  assume inv: "removed_inactive l"
  show "removed_inactive (addDevice l d)" using inv by (rule removed_inactive_addDevice)
  show "removed_inactive (removeDevice now l did)" using inv by (rule removed_inactive_removeDevice)
  show "removed_inactive (fold apply_op ops l)" using inv by (rule removed_inactive_fold)
next
  assume out: "did \<in> removedIds l \<and> getDevice l did = None"
  then show "did \<in> removedIds (fold apply_op ops l)"
    and "getDevice (fold apply_op ops l) did = None"
    by (simp_all add: fold_apply_op_keeps_out)
next
  assume act: "getDevice l did \<noteq> None"
  note m = removeDevice_moves [OF act, of now]
  show "removeDevice now l did
          = l\<lparr>devices := AList.delete did (devices l),
               removed := removed l @ [\<lparr>rm_deviceId = did, timestamp = now div 1000\<rparr>]\<rparr>"
    by (rule m [THEN conjunct1])
  show "getDevice (removeDevice now l did) did = None"
    by (rule m [THEN conjunct2, THEN conjunct1])
  show "did \<in> removedIds (removeDevice now l did)"
    by (rule m [THEN conjunct2, THEN conjunct2])
qed

text \<open>The same on a list that has one device and removes it.\<close>

lemma removed_stays_inactive_example:
  "removed_inactive list_a
   \<and> getDevice list_a ''d1'' = Some phone
   \<and> list_r = \<lparr>owner = ''owner'', devices = [],
                 removed = [\<lparr>rm_deviceId = ''d1'', timestamp = 5000\<rparr>],
                 mainDeviceId = None, version = 1, createdAt = 1000\<rparr>
   \<and> removed_inactive list_r
   \<and> addDevice list_r phone = list_r
   \<and> getDevice (fold apply_op [AddDevice phone, AddDevice laptop, AddDevice tablet] list_r) ''d1''
       = None"
proof -
  have a: "removed_inactive list_a" and g: "getDevice list_a ''d1'' \<noteq> None"
    and v: "getDevice list_a ''d1'' = Some phone"
    by (simp_all add: sample_defs removed_inactive_def getDevice_def)
  note T1 = removed_stays_inactive
    [where now = 5000999 and own = "''owner''" and a = list_a and b = list_a and l = list_a
       and d = phone and did = "''d1''" and ops = "[]"]
  note T2 = removed_stays_inactive
    [where now = 0 and own = "''owner''" and a = list_a and b = list_a and l = list_r
       and d = phone and did = "''d1''"
       and ops = "[AddDevice phone, AddDevice laptop, AddDevice tablet]"]
  have r: "list_r = list_a\<lparr>devices := AList.delete ''d1'' (devices list_a),
               removed := removed list_a @ [\<lparr>rm_deviceId = ''d1'', timestamp = 5000999 div 1000\<rparr>]\<rparr>"
    and out: "getDevice list_r ''d1'' = None" and rin: "''d1'' \<in> removedIds list_r"
    and inv: "removed_inactive list_r"
    using a g T1 unfolding list_r_def by blast+
  have p: "deviceId phone \<in> removedIds list_r"
    using rin by (simp add: phone_def)
  have noop: "addDevice list_r phone = list_r"
    using p T2 by blast
  have keep: "getDevice (fold apply_op [AddDevice phone, AddDevice laptop, AddDevice tablet] list_r) ''d1'' = None"
    using rin out T2 by blast
  have shape: "list_a\<lparr>devices := AList.delete ''d1'' (devices list_a),
               removed := removed list_a @ [\<lparr>rm_deviceId = ''d1'', timestamp = 5000999 div 1000\<rparr>]\<rparr>
        = \<lparr>owner = ''owner'', devices = [],
                 removed = [\<lparr>rm_deviceId = ''d1'', timestamp = 5000\<rparr>],
                 mainDeviceId = None, version = 1, createdAt = 1000\<rparr>"
    by (simp add: sample_defs)
  from a v r inv noop keep shape show ?thesis by simp
qed

text \<open>
  Claim C9.  The claim holds of \<open>addDevice\<close> and \<open>removeDevice\<close>, as above, and it
  says that in every invite list an id of \<open>removed\<close> is never a key of \<open>devices\<close>.
  \<open>fromEvent\<close> breaks that: its loop writes a \<open>device\<close> tag into the map without the
  check \<open>addDevice\<close> makes and \<open>merge\<close> repeats.  The event \<open>list_event\<close>, signed by
  the owner, names the id \<open>d1\<close> in a \<open>device\<close> tag and in a \<open>removed\<close> tag; it
  parses to a list in which \<open>d1\<close> is removed and active, \<open>getDevice\<close> returns the
  removed device and \<open>getAllDevices\<close> lists it.  \<open>addDevice\<close> refuses the same
  device on the same list of removed ids.
\<close>

theorem fromEvent_keeps_removed_device:
  "fromEvent (\<lambda>e. True) (\<lambda>s. 1700000000) list_event = Inr parsed_list
   \<and> ''d1'' \<in> removedIds parsed_list
   \<and> getDevice parsed_list ''d1'' = Some phone
   \<and> getAllDevices parsed_list = [phone]
   \<and> \<not> removed_inactive parsed_list
   \<and> addDevice (parsed_list\<lparr>devices := []\<rparr>) phone = parsed_list\<lparr>devices := []\<rparr>"
  by (simp add: fromEvent_def fromEvent_tag_def list_event_def parsed_list_def
        new_InviteList_def truthy_opt_def truthy_def tag_at_def phone_def Let_def
        removedIds_def getDevice_def getAllDevices_def removed_inactive_def addDevice_def)

section \<open>Properties of the relay store\<close>

lemma same_slot_refl: "same_slot e e"
  by (simp add: same_slot_def)

lemma same_slot_sym: "same_slot a b = same_slot b a"
  by (auto simp: same_slot_def)

lemma same_slot_trans: "same_slot a b \<Longrightarrow> same_slot b c \<Longrightarrow> same_slot a c"
  by (simp add: same_slot_def)

lemma same_slot_kind: "same_slot a b \<Longrightarrow> kind b = kind a"
  by (simp add: same_slot_def)

lemma removeAll_filter_swap: "removeAll e (filter Q xs) = filter Q (removeAll e xs)"
  by (induction xs) auto

lemma length_filter_removeAll: "length (filter Q (removeAll e xs)) \<le> length (filter Q xs)"
  by (induction xs) auto

lemma filter_removeAll_out: "\<not> Q e \<Longrightarrow> filter Q (removeAll e xs) = filter Q xs"
  by (induction xs) auto

lemma set_retained: "set (retained es) \<subseteq> set es"
  by (induction es) auto

lemma distinct_retained: "distinct (retained es)"
proof (induction es)
  case Nil show ?case by simp
next
  case (Cons e es)
  have "\<not> list_ex (same_slot e) es \<Longrightarrow> e \<notin> set (retained es)"
    using set_retained [of es] same_slot_refl [of e] by (auto simp: list_ex_iff)
  with Cons show ?case by (auto simp: distinct_removeAll)
qed

lemma retained_snoc:
  "retained (es @ [v]) =
     (if replaceable (kind v) then filter (\<lambda>x. \<not> same_slot v x) (retained es) @ [v]
      else if v \<in> set (retained es) then retained es else retained es @ [v])"
proof (induction es)
  case Nil
  show ?case by simp
next
  case (Cons e es)
  show ?case
  proof (cases "replaceable (kind v)")
    case rv: True
    show ?thesis
    proof (cases "replaceable (kind e)")
      case True
      show ?thesis
      proof (cases "same_slot e v")
        case True
        then have "same_slot v e" by (simp add: same_slot_sym)
        with True rv \<open>replaceable (kind e)\<close> Cons show ?thesis by simp
      next
        case False
        then have "\<not> same_slot v e" by (simp add: same_slot_sym)
        with False rv \<open>replaceable (kind e)\<close> Cons show ?thesis by simp
      qed
    next
      case False
      with rv have ne: "v \<noteq> e" and ns: "\<not> same_slot v e"
        by (auto simp: same_slot_def)
      with False rv Cons show ?thesis by (simp add: removeAll_filter_swap)
    qed
  next
    case nv: False
    show ?thesis
    proof (cases "replaceable (kind e)")
      case True
      with nv have ne: "v \<noteq> e" and ns: "\<not> same_slot e v"
        by (auto simp: same_slot_def)
      with True nv Cons show ?thesis by simp
    next
      case False
      with nv Cons show ?thesis by auto
    qed
  qed
qed

lemma retained_slot_unique:
  "replaceable (kind v) \<Longrightarrow> length (filter (same_slot v) (retained es)) \<le> 1"
proof (induction es)
  case Nil show ?case by simp
next
  case (Cons e es)
  show ?case
  proof (cases "replaceable (kind e)")
    case True
    show ?thesis
    proof (cases "list_ex (same_slot e) es")
      case True
      with \<open>replaceable (kind e)\<close> Cons show ?thesis by simp
    next
      case False
      show ?thesis
      proof (cases "same_slot v e")
        case True
        have "filter (same_slot v) (retained es) = []"
        proof (rule ccontr)
          assume "filter (same_slot v) (retained es) \<noteq> []"
          then obtain x where "x \<in> set (retained es)" "same_slot v x"
            by (auto simp: filter_empty_conv)
          with True have "x \<in> set es" "same_slot e x"
            using set_retained [of es] same_slot_trans [of e v x] same_slot_sym [of e v]
            by auto
          with False show False by (auto simp: list_ex_iff)
        qed
        with True False \<open>replaceable (kind e)\<close> show ?thesis by simp
      next
        case nv: False
        with False \<open>replaceable (kind e)\<close> Cons show ?thesis by simp
      qed
    qed
  next
    case False
    with Cons.prems have ns: "\<not> same_slot v e" by (auto simp: same_slot_def)
    have "length (filter (same_slot v) (removeAll e (retained es)))
          \<le> length (filter (same_slot v) (retained es))"
      by (rule length_filter_removeAll)
    with False ns Cons show ?thesis by simp
  qed
qed

lemma filter_slot_retained:
  assumes "replaceable k"
  shows "filter (in_slot pk k d) (retained es) =
           (if filter (in_slot pk k d) es = [] then []
            else [last (filter (in_slot pk k d) es)])"
proof (induction es)
  case Nil show ?case by simp
next
  case (Cons e es)
  let ?T = "in_slot pk k d"
  show ?case
  proof (cases "?T e")
    case True
    with assms have re: "replaceable (kind e)" by (simp add: in_slot_def)
    from True have same: "same_slot e = ?T"
      by (auto simp: same_slot_def in_slot_def fun_eq_iff)
    show ?thesis
    proof (cases "filter ?T es = []")
      case True
      then have "\<not> list_ex (same_slot e) es"
        by (auto simp: same list_ex_iff filter_empty_conv)
      with True \<open>?T e\<close> re Cons show ?thesis by simp
    next
      case False
      then have "list_ex (same_slot e) es"
        by (auto simp: same list_ex_iff filter_empty_conv)
      with False \<open>?T e\<close> re Cons show ?thesis by simp
    qed
  next
    case False
    with Cons show ?thesis by (simp add: filter_removeAll_out)
  qed
qed

text \<open>The map \<open>events\<close> that holds the events \<open>xs\<close> in this order, each under its id.\<close>

lemma delete_keyed:
  "AList.delete k (map (\<lambda>e. (event_key e, e)) xs)
     = map (\<lambda>e. (event_key e, e)) (filter (\<lambda>x. event_key x \<noteq> k) xs)"
  by (induction xs) auto

lemma find_keyed:
  "find (\<lambda>p. Q (snd p)) (map (\<lambda>e. (event_key e, e)) xs)
     = map_option (\<lambda>e. (event_key e, e)) (find Q xs)"
  by (induction xs) auto

lemma filter_at_most_one:
  "length (filter Q xs) \<le> 1 \<Longrightarrow> x \<in> set xs \<Longrightarrow> y \<in> set xs \<Longrightarrow> Q x \<Longrightarrow> Q y \<Longrightarrow> x = y"
proof (induction xs)
  case Nil then show ?case by simp
next
  case (Cons z zs)
  show ?case
  proof (cases "Q z")
    case True
    with Cons.prems have "filter Q zs = []" by simp
    then have "\<forall>u\<in>set zs. \<not> Q u" by (simp add: filter_empty_conv)
    with Cons.prems show ?thesis by auto
  next
    case False
    with Cons show ?thesis by auto
  qed
qed

lemma replace_older_keyed:
  assumes dist: "distinct (map event_key xs)"
    and one: "length (filter (same_slot e) xs) \<le> 1"
  shows "replace_older e (map (\<lambda>e. (event_key e, e)) xs)
           = map (\<lambda>e. (event_key e, e)) (filter (\<lambda>x. \<not> same_slot e x) xs)"
proof (cases "find (same_slot e) xs")
  case None
  then have "\<forall>x\<in>set xs. \<not> same_slot e x" by (simp add: find_None_iff)
  then have "filter (\<lambda>x. \<not> same_slot e x) xs = xs" by (simp add: filter_id_conv)
  with None show ?thesis by (simp add: replace_older_def find_keyed)
next
  case (Some x)
  then have x: "x \<in> set xs" "same_slot e x"
    by (auto simp: find_Some_iff)
  have "filter (\<lambda>y. event_key y \<noteq> event_key x) xs = filter (\<lambda>y. \<not> same_slot e y) xs"
  proof (rule filter_cong [OF refl])
    fix y assume y: "y \<in> set xs"
    show "(event_key y \<noteq> event_key x) = (\<not> same_slot e y)"
    proof
      assume "event_key y \<noteq> event_key x"
      then have "y \<noteq> x" by auto
      then show "\<not> same_slot e y"
        using filter_at_most_one [OF one y x(1)] x(2) by auto
    next
      assume "\<not> same_slot e y"
      with x have "y \<noteq> x" by auto
      with dist x y show "event_key y \<noteq> event_key x"
        by (auto simp: distinct_map inj_on_def)
    qed
  qed
  with Some show ?thesis by (simp add: replace_older_def find_keyed delete_keyed)
qed

lemma update_keyed:
  "\<forall>x\<in>set xs. event_key x = event_key v \<longrightarrow> x = v \<Longrightarrow>
   AList.update (event_key v) v (map (\<lambda>e. (event_key e, e)) xs)
     = map (\<lambda>e. (event_key e, e)) (if v \<in> set xs then xs else xs @ [v])"
  by (induction xs) auto

lemma ids_identify_iff:
  "ids_identify es = (\<forall>a\<in>set es. \<forall>b\<in>set es. event_key a = event_key b \<longrightarrow> a = b)"
  by (simp add: ids_identify_def list_all_iff)

lemma distinct_keys_retained:
  "ids_identify es \<Longrightarrow> distinct (map event_key (retained es))"
  using set_retained [of es]
  by (auto simp: distinct_map distinct_retained inj_on_def ids_identify_iff)

lemma verifiedEvent_fields:
  "kind (verifiedEvent sign e key) = kind e" "pubkey (verifiedEvent sign e key) = pubkey e"
  by (simp_all add: verifiedEvent_def Let_def)

lemma verifiedEvent_dTag:
  "keeps_dTag sign \<Longrightarrow> dTag (verifiedEvent sign e key) = dTag e"
  by (simp add: verifiedEvent_def Let_def keeps_dTag_def dTag_def)

lemma same_slot_stored:
  "keeps_dTag sign \<Longrightarrow> same_slot (verifiedEvent sign e key) = same_slot e"
  by (simp add: same_slot_def fun_eq_iff verifiedEvent_fields verifiedEvent_dTag)

lemma publish_all_snoc:
  "publish_all sign (pubs @ [p]) = fst (publish sign (publish_all sign pubs) (fst p) (snd p))"
  by (simp add: publish_all_def)

text \<open>One more \<open>publish\<close> on a store that holds the retained events.\<close>

lemma publish_retained:
  assumes keep: "keeps_dTag sign" and ids: "ids_identify (es @ [verifiedEvent sign e key])"
  shows "fst (publish sign (map (\<lambda>e. (event_key e, e)) (retained es)) e key)
           = map (\<lambda>e. (event_key e, e)) (retained (es @ [verifiedEvent sign e key]))"
proof -
  let ?v = "verifiedEvent sign e key"
  let ?keyed = "map (\<lambda>e. (event_key e, e))"
  from ids have ids': "ids_identify es"
    and own: "\<forall>x\<in>set es. event_key x = event_key ?v \<longrightarrow> x = ?v"
    by (auto simp: ids_identify_iff)
  have slot: "same_slot e = same_slot ?v"
    using same_slot_stored [OF keep, of e key] by simp
  show ?thesis
  proof (cases "replaceable (kind e)")
    case True
    then have rv: "replaceable (kind ?v)" by (simp add: verifiedEvent_fields)
    let ?xs = "filter (\<lambda>x. \<not> same_slot ?v x) (retained es)"
    have "replace_older e (?keyed (retained es)) = ?keyed ?xs"
      using replace_older_keyed [OF distinct_keys_retained [OF ids'], of e]
        retained_slot_unique [OF rv, of es]
      by (simp add: slot)
    moreover have "\<forall>x\<in>set ?xs. event_key x = event_key ?v \<longrightarrow> x = ?v"
      using own set_retained [of es] by auto
    moreover have "?v \<notin> set ?xs" by (simp add: same_slot_refl)
    ultimately have U: "AList.update (event_key ?v) ?v (replace_older e (?keyed (retained es)))
               = ?keyed (?xs @ [?v])"
      using update_keyed [of ?xs ?v] by simp
    have "fst (publish sign (?keyed (retained es)) e key)
            = AList.update (event_key ?v) ?v (replace_older e (?keyed (retained es)))"
      using True by (auto simp: publish_def Let_def replaceable_def)
    with U rv show ?thesis by (simp only: retained_snoc if_True)
  next
    case False
    then have nv: "\<not> replaceable (kind ?v)" by (simp add: verifiedEvent_fields)
    have "\<forall>x\<in>set (retained es). event_key x = event_key ?v \<longrightarrow> x = ?v"
      using own set_retained [of es] by auto
    then have U: "AList.update (event_key ?v) ?v (?keyed (retained es))
               = ?keyed (if ?v \<in> set (retained es) then retained es else retained es @ [?v])"
      by (rule update_keyed)
    have "fst (publish sign (?keyed (retained es)) e key)
            = AList.update (event_key ?v) ?v (?keyed (retained es))"
      using False by (auto simp: publish_def Let_def replaceable_def)
    with U nv show ?thesis by (simp only: retained_snoc if_False)
  qed
qed

lemma publish_all_retained:
  assumes keep: "keeps_dTag sign"
  shows "ids_identify (map (stored_as sign) pubs) \<Longrightarrow>
         publish_all sign pubs
           = map (\<lambda>e. (event_key e, e)) (retained (map (stored_as sign) pubs))"
proof (induction pubs rule: rev_induct)
  case Nil
  show ?case by (simp add: publish_all_def)
next
  case (snoc p pubs)
  from snoc.prems have "ids_identify (map (stored_as sign) pubs)"
    by (auto simp: ids_identify_iff)
  with snoc.IH have IH: "publish_all sign pubs
      = map (\<lambda>e. (event_key e, e)) (retained (map (stored_as sign) pubs))" by simp
  have st: "map (stored_as sign) (pubs @ [p])
            = map (stored_as sign) pubs @ [verifiedEvent sign (fst p) (snd p)]"
    by (simp add: stored_as_def)
  from snoc.prems
  have "ids_identify (map (stored_as sign) pubs @ [verifiedEvent sign (fst p) (snd p)])"
    by (simp only: st)
  from publish_retained [OF keep this] IH
  show ?case by (simp only: publish_all_snoc st)
qed

lemma getEvents_keyed: "getEvents (map (\<lambda>e. (event_key e, e)) xs) = xs"
  by (simp add: getEvents_def comp_def)

text \<open>
  Claim C10, as amended.  Publish any sequence of events on a new relay; let signing
  leave the d-tag of an event as it is, and let the id of a stored event identify it.
  Then the store holds exactly the events \<open>retained\<close> lists, in that order: every
  event, but for an event of a kind \<open>10000 \<le> kind < 20000\<close> after which another event
  of its \<open>(pubkey, kind, d-tag)\<close> tuple was published.  So of every such tuple the
  store holds one event, the one published last, whatever the \<open>created_at\<close> of the
  events; and after two events of the tuple are published one after the other, the
  second is the one event of the tuple in the store.
\<close>

theorem replaceable_keeps_last_published:
  assumes "keeps_dTag sign" and "ids_identify (map (stored_as sign) pubs)"
  shows "getEvents (publish_all sign pubs) = retained (map (stored_as sign) pubs)
         \<and> (replaceable k \<longrightarrow>
              filter (in_slot pk k d) (getEvents (publish_all sign pubs))
                = (if filter (in_slot pk k d) (map (stored_as sign) pubs) = [] then []
                   else [last (filter (in_slot pk k d) (map (stored_as sign) pubs))]))
         \<and> (replaceable k \<and> pubs = qs @ [p1, p2]
              \<and> in_slot pk k d (stored_as sign p1) \<and> in_slot pk k d (stored_as sign p2) \<longrightarrow>
              filter (in_slot pk k d) (getEvents (publish_all sign pubs)) = [stored_as sign p2])"
proof -
  have all: "getEvents (publish_all sign pubs) = retained (map (stored_as sign) pubs)"
    using publish_all_retained [OF assms] by (simp only: getEvents_keyed)
  have slot: "filter (in_slot pk k d) (getEvents (publish_all sign pubs))
                = (if filter (in_slot pk k d) (map (stored_as sign) pubs) = [] then []
                   else [last (filter (in_slot pk k d) (map (stored_as sign) pubs))])"
    if "replaceable k"
    using filter_slot_retained [OF that] by (simp only: all)
  have two: "filter (in_slot pk k d) (getEvents (publish_all sign pubs)) = [stored_as sign p2]"
    if "replaceable k \<and> pubs = qs @ [p1, p2]
          \<and> in_slot pk k d (stored_as sign p1) \<and> in_slot pk k d (stored_as sign p2)"
    using that slot by simp
  show ?thesis
  proof (intro conjI impI)
    show "getEvents (publish_all sign pubs) = retained (map (stored_as sign) pubs)" by (rule all)
  next
    assume "replaceable k"
    then show "filter (in_slot pk k d) (getEvents (publish_all sign pubs))
                = (if filter (in_slot pk k d) (map (stored_as sign) pubs) = [] then []
                   else [last (filter (in_slot pk k d) (map (stored_as sign) pubs))])"
      by (rule slot)
  next
    assume "replaceable k \<and> pubs = qs @ [p1, p2]
          \<and> in_slot pk k d (stored_as sign p1) \<and> in_slot pk k d (stored_as sign p2)"
    then show "filter (in_slot pk k d) (getEvents (publish_all sign pubs)) = [stored_as sign p2]"
      by (rule two)
  qed
qed

theorem replaceable_keeps_last_published_witness:
  "keeps_dTag sample_sign
   \<and> ids_identify (map (stored_as sample_sign)
        [(first_event, None), (third_event, None), (second_event, None)])
   \<and> replaceable 10078
   \<and> getEvents (publish_all sample_sign
        [(first_event, None), (third_event, None), (second_event, None)])
      = [third_event\<lparr>ev_id := Some ''third'', ev_sig := Some ''sig''\<rparr>,
         second_event\<lparr>ev_id := Some ''second'', ev_sig := Some ''sig''\<rparr>]
   \<and> filter (in_slot ''alice'' 10078 (Some ''test''))
        (getEvents (publish_all sample_sign
           [(first_event, None), (third_event, None), (second_event, None)]))
      = [stored_as sample_sign (second_event, None)]
   \<and> filter (in_slot ''alice'' 10078 (Some ''test''))
        (getEvents (publish_all sample_sign [(first_event, None), (second_event, None)]))
      = [stored_as sample_sign (second_event, None)]"
proof -
  let ?three = "[(first_event, None), (third_event, None), (second_event, None)]"
  let ?two = "[(first_event, None), (second_event, None)]"
  let ?slot = "in_slot ''alice'' 10078 (Some ''test'')"
  have k: "keeps_dTag sample_sign"
    by (simp add: keeps_dTag_def sample_sign_def dTag_def)
  have i3: "ids_identify (map (stored_as sample_sign) ?three)" by code_simp
  have i2: "ids_identify (map (stored_as sample_sign) ?two)" by code_simp
  have r: "replaceable 10078" by (simp add: replaceable_def)
  have s: "?slot (stored_as sample_sign (first_event, None))"
      "?slot (stored_as sample_sign (second_event, None))"
    by code_simp+
  have ret: "retained (map (stored_as sample_sign) ?three)
      = [third_event\<lparr>ev_id := Some ''third'', ev_sig := Some ''sig''\<rparr>,
         second_event\<lparr>ev_id := Some ''second'', ev_sig := Some ''sig''\<rparr>]"
    by code_simp
  have pub: "filter ?slot (map (stored_as sample_sign) ?three)
      = [stored_as sample_sign (first_event, None), stored_as sample_sign (second_event, None)]"
    by code_simp
  note T3 = replaceable_keeps_last_published [OF k i3, where k = 10078 and pk = "''alice''"
      and d = "Some ''test''"]
  note T2 = replaceable_keeps_last_published [OF k i2, where k = 10078 and pk = "''alice''"
      and d = "Some ''test''" and qs = "[]" and ?p1.0 = "(first_event, None)"
      and ?p2.0 = "(second_event, None)"]
  have all: "getEvents (publish_all sample_sign ?three)
      = retained (map (stored_as sample_sign) ?three)"
    using T3 by (rule conjunct1)
  have "filter ?slot (getEvents (publish_all sample_sign ?three))
      = (if filter ?slot (map (stored_as sample_sign) ?three) = [] then []
         else [last (filter ?slot (map (stored_as sample_sign) ?three))])"
    using T3 [THEN conjunct2, THEN conjunct1] r by (rule mp)
  then have slot3: "filter ?slot (getEvents (publish_all sample_sign ?three))
      = [stored_as sample_sign (second_event, None)]"
    by (simp only: pub) simp
  have slot2: "filter ?slot (getEvents (publish_all sample_sign ?two))
      = [stored_as sample_sign (second_event, None)]"
    using T2 [THEN conjunct2, THEN conjunct2] r s by simp
  from k i3 r all [unfolded ret] slot3 slot2 show ?thesis by (intro conjI)
qed

text \<open>
  The claim as stated fails: \<open>publish\<close> never reads \<open>created_at\<close>.  Of two events of
  one tuple, published newest first, the store keeps the one with the smaller
  \<open>created_at\<close>.
\<close>

theorem replaceable_newest_counterexample:
  "getEvents (publish_all sample_sign [(second_event, None), (first_event, None)])
     = [first_event\<lparr>ev_id := Some ''first'', ev_sig := Some ''sig''\<rparr>]
   \<and> in_slot ''alice'' 10078 (Some ''test'') (stored_as sample_sign (first_event, None))
   \<and> in_slot ''alice'' 10078 (Some ''test'') (stored_as sample_sign (second_event, None))
   \<and> replaceable 10078
   \<and> created_at (stored_as sample_sign (first_event, None))
       < created_at (stored_as sample_sign (second_event, None))"
  by code_simp

section \<open>Properties of the invite response\<close>

lemma finalizeEvent_fields:
  "pubkey (finalizeEvent C t sk) = getPublicKey C sk"
  "content (finalizeEvent C t sk) = content t"
  "kind (finalizeEvent C t sk) = kind t"
  "tags (finalizeEvent C t sk) = tags t"
  by (simp_all add: finalizeEvent_def Let_def)

lemma parse_payload_roundtrip:
  assumes "crypto_ok C"
  shows "parse_payload C (JSON_stringify C (payload_json s d)) = (Some (JStr s), map_option JStr d)"
proof -
  from assms have "JSON_parse C (JSON_stringify C (payload_json s d)) = Some (payload_json s d)"
    by (simp add: crypto_ok_def)
  then show ?thesis
    by (cases d) (simp_all add: parse_payload_def payload_json_def)
qed

text \<open>
  Claim C5.  Let the invitee's and the inviter's identity public keys and the inviter's
  ephemeral public key be the public halves of the private keys used on the other
  side.  Whatever the session public key, the shared secret, the optional device id and
  the random draws: when \<open>encryptInviteResponse\<close> produces an event,
  \<open>decryptInviteResponse\<close> on that event, with the inviter's ephemeral and identity
  private keys and the same shared secret, returns exactly the invitee's public key,
  the session key and the device id (\<open>undefined\<close> when none was given).  The
  collaborators are assumed correct in the sense of \<open>crypto_ok\<close>.
\<close>

theorem invite_response_roundtrip:
  assumes ok: "crypto_ok C"
    and inviter: "inviterPublicKey = getPublicKey C inviterPrivateKey"
    and invitee: "inviteePublicKey = getPublicKey C inviteePrivateKey"
    and ephemeral: "ephemeralPub = getPublicKey C ephemeralPriv"
    and enc: "encryptInviteResponse C D inviteeSessionPublicKey inviteePublicKey
                inviteePrivateKey inviterPublicKey ephemeralPub
                sharedSecretHex inviteeDeviceId = Some event"
  shows "decryptInviteResponse C event ephemeralPriv inviterPrivateKey
           sharedSecretHex
         = Some \<lparr>res_inviteePublicKey = inviteePublicKey,
                 res_sessionKey = Some (JStr inviteeSessionPublicKey),
                 res_deviceId = map_option JStr inviteeDeviceId\<rparr>"
proof -
  from ok have dec: "\<And>m k n c. nip44_encrypt C m k n = Some c \<Longrightarrow> nip44_decrypt C c k = Some m"
    and sym: "\<And>a b. getConversationKey C a (getPublicKey C b)
                 = getConversationKey C b (getPublicKey C a)"
    and inner: "\<And>p c t. JSON_parse C (JSON_stringify C (inner_json p c t)) = Some (inner_json p c t)"
    by (simp_all add: crypto_ok_def)
  from enc obtain secretBytes dhKey dhEncrypted innerContent envelopeKey envelopeContent where
    hex: "hexToBytes C sharedSecretHex = Some secretBytes"
    and k1: "getConversationKey C inviteePrivateKey inviterPublicKey = Some dhKey"
    and e1: "nip44_encrypt C (JSON_stringify C (payload_json inviteeSessionPublicKey inviteeDeviceId))
               dhKey (nonce1 D) = Some dhEncrypted"
    and e2: "nip44_encrypt C dhEncrypted secretBytes (nonce2 D) = Some innerContent"
    and k3: "getConversationKey C (randomSenderKey D) ephemeralPub = Some envelopeKey"
    and e3: "nip44_encrypt C (JSON_stringify C
               (inner_json inviteePublicKey innerContent (now_ms D div 1000)))
               envelopeKey (nonce3 D) = Some envelopeContent"
    and ev: "event = finalizeEvent C
               \<lparr>kind = INVITE_RESPONSE_KIND C, pubkey = getPublicKey C (randomSenderKey D),
                created_at = randomNow D, tags = [[''p'', ephemeralPub]],
                content = envelopeContent, ev_id = None, ev_sig = None\<rparr>
               (randomSenderKey D)"
    by (auto simp: encryptInviteResponse_def Let_def bind_eq_Some_conv)
  have k3': "getConversationKey C ephemeralPriv (pubkey event) = Some envelopeKey"
    using k3 sym [of ephemeralPriv "randomSenderKey D"]
    by (simp add: ev finalizeEvent_fields ephemeral)
  have k1': "getConversationKey C inviterPrivateKey inviteePublicKey = Some dhKey"
    using k1 sym [of inviterPrivateKey inviteePrivateKey] by (simp add: inviter invitee)
  have c: "content event = envelopeContent" by (simp add: ev finalizeEvent_fields)
  show ?thesis
    by (simp add: decryptInviteResponse_def hex k3' c dec [OF e3]
          inner [unfolded inner_json_def] inner_json_def
          as_string_def dec [OF e2] k1' dec [OF e1] parse_payload_roundtrip [OF ok])
qed

subsection \<open>The small instance is a correct collaborator\<close>

lemma length_show_key: "length (show_key k) = length k"
  by (simp add: show_key_def)

lemma toy_decrypt_encrypt:
  "toy_encrypt m k n = Some c \<Longrightarrow> toy_decrypt c k = Some m"
  by (auto simp: toy_encrypt_def toy_decrypt_def length_show_key split: if_splits)

lemma takeWhile_replicate:
  "b \<noteq> a \<Longrightarrow> takeWhile (\<lambda>c. c = a) (replicate n a @ b # r) = replicate n a"
  by (induction n) auto

lemma take_str_put: "take_str (put_str s @ r) = (s, r)"
proof -
  have "takeWhile (\<lambda>c. c = CHR ''1'') (replicate (length s) CHR ''1'' @ CHR ''0'' # s @ r)
        = replicate (length s) CHR ''1''"
    by (rule takeWhile_replicate) simp
  then show ?thesis
    by (simp add: take_str_def put_str_def Let_def)
qed

lemma take_str_put_end: "take_str (put_str s) = (s, [])"
  using take_str_put [of s "[]"] by simp

lemma take_int_put: "take_int (put_int i) = i"
  by (simp add: take_int_def put_int_def)

lemma toy_json_payload: "toy_parse (toy_stringify (payload_json s d)) = Some (payload_json s d)"
  by (cases d)
     (simp_all add: toy_parse_def toy_stringify_def payload_json_def take_str_put take_str_put_end)

lemma toy_json_inner: "toy_parse (toy_stringify (inner_json p c t)) = Some (inner_json p c t)"
  by (simp add: toy_parse_def toy_stringify_def inner_json_def take_str_put take_int_put)

lemma crypto_ok_toy: "crypto_ok toy"
  by (simp add: crypto_ok_def toy_def toy_decrypt_encrypt toy_json_payload toy_json_inner)

lemma toy_response_made:
  "encryptInviteResponse toy toy_draws ''S'' ''pk:2'' [2] ''pk:1'' ''pk:3'' ''00'' (Some ''dev'')
     = Some toy_response"
  by code_simp

theorem invite_response_roundtrip_witness:
  "crypto_ok toy
   \<and> encryptInviteResponse toy toy_draws ''S'' ''pk:2'' [2] ''pk:1'' ''pk:3'' ''00'' (Some ''dev'')
       = Some toy_response
   \<and> decryptInviteResponse toy toy_response [3] [1] ''00''
       = Some \<lparr>res_inviteePublicKey = ''pk:2'', res_sessionKey = Some (JStr ''S''),
               res_deviceId = Some (JStr ''dev'')\<rparr>"
proof -
  have keys: "''pk:1'' = getPublicKey toy [1]" "''pk:2'' = getPublicKey toy [2]"
    "''pk:3'' = getPublicKey toy [3]"
    by code_simp+
  from invite_response_roundtrip [OF crypto_ok_toy keys toy_response_made]
  show ?thesis using crypto_ok_toy toy_response_made by simp
qed

section \<open>Properties of Invite.listen\<close>













lemma other_response_made:
  "encryptInviteResponse toy (toy_draws\<lparr>randomNow := 4, randomSenderKey := [8]\<rparr>)
     ''T'' ''pk:4'' [4] ''pk:1'' ''pk:3'' ''00'' None = Some other_response"
  by code_simp



text \<open>
  The guard is read when the handler starts.  Two responses that are delivered one
  after the other, before the promise of the first has settled, both pass the guard
  of an invite with \<open>maxUses = 1\<close>, and both handlers run on to their \<open>onSession\<close>
  call.  The claim as amended is about the responses delivered once \<open>usedBy\<close> is
  full, and says nothing of a handler that was suspended before.
\<close>

lemma suspended_handlers_finish:
  "map (\<lambda>c. fst (snd c))
        (lis_sessions (listen_run toy Some (KeyDecryptor [1]) (listening_on single_invite)
           [Deliver toy_response, Deliver other_response, Settle 0, Settle 0]))
      = [Some (JStr ''pk:2''), Some (JStr ''pk:4'')]
   \<and> usedBy (lis_invite (listen_run toy Some (KeyDecryptor [1]) (listening_on single_invite)
           [Deliver toy_response, Deliver other_response, Settle 0, Settle 0]))
      = [Some (JStr ''pk:2''), Some (JStr ''pk:4'')]"
  by code_simp

section \<open>Session: the scenarios of the spec\<close>

text \<open>
  Scenario S1: Alice sends, Bob decrypts.  Scenario S2: Bob then answers, Alice
  decrypts, and her \<open>theirCurrentRatchetPublic\<close> is the key of Bob's event.
  Scenario S3: Alice sends three events, Bob receives the third first and sees the
  payloads in the order of delivery.  And \<open>good_event\<close> is the third event Bob sends.
\<close>

lemma scenario_S1:
  "(case send toy_ratchet [6] [7] 0 blank alice0 ''hello bob'' of
      None \<Rightarrow> None
    | Some (e, _, _) \<Rightarrow> map_option content (fst (decryptEvent toy_ratchet bob0 e)))
   = Some ''hello bob''"
  by code_simp

lemma scenario_S2:
  "(case send toy_ratchet [6] [7] 0 blank alice0 ''hello bob'' of
      None \<Rightarrow> None
    | Some (e, _, a1) \<Rightarrow>
        (case send toy_ratchet [6] [7] 0 blank (snd (decryptEvent toy_ratchet bob0 e))
                ''hi alice'' of
           None \<Rightarrow> None
         | Some (f, _, _) \<Rightarrow>
             Some (map_option content (fst (decryptEvent toy_ratchet a1 f)),
                   theirCurrentRatchetPublic (snd (decryptEvent toy_ratchet a1 f)),
                   pubkey f)))
   = Some (Some ''hi alice'', Some ''pk:2'', ''pk:2'')"
  by code_simp

lemma scenario_S3:
  "(case send_each toy_ratchet [6] [7] 0 blank alice0 [''one'', ''two'', ''three''] of
      Some ([e1, e2, e3], _) \<Rightarrow> fst (decrypt_each toy_ratchet bob0 [e3, e1, e2])
    | _ \<Rightarrow> [])
   = [Some ''three'', Some ''one'', Some ''two'']"
  by code_simp

lemma good_event_sent:
  "map_option (\<lambda>r. fst r ! 2) (send_each toy_ratchet [6] [7] 0 blank bob0 [''a'', ''b'', ''hello''])
   = Some good_event"
  by code_simp

section \<open>Properties of decryptEvent\<close>






end
